theory Spec2Isabelle
  imports Main
begin

section \<open>JavaScript strings\<close>

text \<open>
  Strings are lists of code units. The model takes the code units from the 8-bit
  type \<^typ>\<open>char\<close>, so that the character classes below are those of JavaScript
  restricted to the code units 0..255.
\<close>

definition NL :: char where
  "NL = CHR 0x0A"

definition CR :: char where
  "CR = CHR 0x0D"

definition BSLASH :: char where
  "BSLASH = CHR 0x5C"

text \<open>The class \<open>\s\<close> of a regular expression, which is also what \<open>trim\<close> removes.\<close>

definition isSpace :: "char \<Rightarrow> bool" where
  "isSpace c = (c = CHR 0x09 \<or> c = CHR 0x0A \<or> c = CHR 0x0B \<or> c = CHR 0x0C \<or> c = CHR 0x0D
     \<or> c = CHR 0x20 \<or> c = CHR 0xA0)"

text \<open>The class \<open>.\<close> (without the \<open>s\<close> flag): every code unit but a line terminator.\<close>

definition isDot :: "char \<Rightarrow> bool" where
  "isDot c = (c \<noteq> NL \<and> c \<noteq> CR)"

text \<open>The class \<open>\d\<close>.\<close>

definition isDigit :: "char \<Rightarrow> bool" where
  "isDigit c = (let n = (of_char c :: nat) in 48 \<le> n \<and> n \<le> 57)"

text \<open>The class \<open>\w\<close>.\<close>

definition isWord :: "char \<Rightarrow> bool" where
  "isWord c = (let n = (of_char c :: nat) in
     (48 \<le> n \<and> n \<le> 57) \<or> (65 \<le> n \<and> n \<le> 90) \<or> (97 \<le> n \<and> n \<le> 122) \<or> n = 95)"

definition trim :: "string \<Rightarrow> string" where
  "trim s = rev (dropWhile isSpace (rev (dropWhile isSpace s)))"

definition startsWith :: "string \<Rightarrow> string \<Rightarrow> bool" where
  "startsWith p s = (take (length p) s = p)"

text \<open>\<open>s.slice(a, b)\<close> for \<open>0 \<le> a\<close> and \<open>0 \<le> b\<close>; \<open>s.slice(a)\<close> is \<open>drop a s\<close>.\<close>

definition slice :: "string \<Rightarrow> nat \<Rightarrow> nat \<Rightarrow> string" where
  "slice s a b = take (b - a) (drop a s)"

text \<open>\<open>s.split(d)\<close> for a separator of one code unit: never the empty list.\<close>

fun split :: "char \<Rightarrow> string \<Rightarrow> string list" where
  "split d [] = [[]]"
| "split d (c # cs) =
     (if c = d then [] # split d cs
      else (case split d cs of [] \<Rightarrow> [[c]] | l # ls \<Rightarrow> (c # l) # ls))"

text \<open>\<open>xs.join(sep)\<close>.\<close>

fun join :: "string \<Rightarrow> string list \<Rightarrow> string" where
  "join sep [] = []"
| "join sep [x] = x"
| "join sep (x # y # ys) = x @ sep @ join sep (y # ys)"

text \<open>
  \<open>toLowerCase\<close> on the code units 0..255: the letters A-Z and the upper-case letters
  of Latin-1 (0xC0..0xDE but the multiplication sign 0xD7) move up by 32.
\<close>

definition toLowerChar :: "char \<Rightarrow> char" where
  "toLowerChar c = (let n = (of_char c :: nat) in
     if (65 \<le> n \<and> n \<le> 90) \<or> (192 \<le> n \<and> n \<le> 222 \<and> n \<noteq> 215) then char_of (n + 32) else c)"

definition toLowerCase :: "string \<Rightarrow> string" where
  "toLowerCase s = map toLowerChar s"

section \<open>Language tag normalizer (parser.ts, mapLanguage)\<close>

text \<open>
  The object literal \<open>mapping\<close>. A lookup \<open>mapping[k]\<close> finds an own property (an
  alias), or a property inherited from \<open>Object.prototype\<close>, whose value is not a
  string, or nothing. The lower-cased key can only name the inherited properties
  \<open>constructor\<close> and \<open>__proto__\<close>: the other ones have a capital letter.
\<close>

datatype lookup = Alias string | Inherited | Absent

definition aliasTable :: "(string \<times> string) list" where
  "aliasTable = [(''js'', ''javascript''), (''ts'', ''typescript''), (''py'', ''python''),
     (''rb'', ''ruby''), (''sh'', ''bash''), (''yml'', ''yaml''), (''md'', ''markdown'')]"

definition mapping :: "string \<Rightarrow> lookup" where
  "mapping k = (case map_of aliasTable k of
       Some v \<Rightarrow> Alias v
     | None \<Rightarrow> if k = ''constructor'' \<or> k = ''__proto__'' then Inherited else Absent)"

definition validLanguages :: "string list" where
  "validLanguages = [
     ''abap'', ''arduino'', ''bash'', ''basic'', ''c'', ''clojure'', ''coffeescript'',
     ''cpp'', ''csharp'', ''css'', ''dart'', ''diff'', ''docker'', ''elixir'', ''elm'',
     ''erlang'', ''flow'', ''fortran'', ''fsharp'', ''gherkin'', ''glsl'', ''go'',
     ''graphql'', ''groovy'', ''haskell'', ''html'', ''java'', ''javascript'', ''json'',
     ''julia'', ''kotlin'', ''latex'', ''less'', ''lisp'', ''livescript'', ''lua'',
     ''makefile'', ''markdown'', ''markup'', ''matlab'', ''mermaid'', ''nix'', ''objective-c'',
     ''ocaml'', ''pascal'', ''perl'', ''php'', ''plain text'', ''powershell'', ''prolog'',
     ''protobuf'', ''python'', ''r'', ''reason'', ''ruby'', ''rust'', ''sass'', ''scala'',
     ''scheme'', ''scss'', ''shell'', ''sql'', ''swift'', ''typescript'', ''vb.net'',
     ''verilog'', ''vhdl'', ''visual basic'', ''webassembly'', ''xml'', ''yaml'']"

text \<open>
  \<open>mapping[normalized] || normalized\<close> is the alias, the inherited object (truthy, and
  no member of the set of strings), or the lower-cased input itself.
\<close>

definition mapLanguage :: "string \<Rightarrow> string" where
  "mapLanguage lang =
     (let normalized = toLowerCase lang in
      case mapping normalized of
        Alias mapped \<Rightarrow> if mapped \<in> set validLanguages then mapped else ''plain text''
      | Inherited \<Rightarrow> ''plain text''
      | Absent \<Rightarrow> if normalized \<in> set validLanguages then normalized else ''plain text'')"

text \<open>The alias substitution as the specification words it: the alias if there is one.\<close>

definition aliasSubstitute :: "string \<Rightarrow> string" where
  "aliasSubstitute k = (case map_of aliasTable k of Some v \<Rightarrow> v | None \<Rightarrow> k)"

section \<open>Inline span segmentor (parser.ts, parseInlineFormatting)\<close>

subsection \<open>Rich text\<close>

text \<open>
  The annotations object of a formatted span; its \<open>color\<close> is always \<open>'default'\<close>.
  A plain span has no annotations at all.
\<close>

record annotations =
  bold :: bool
  italic :: bool
  code :: bool
  strikethrough :: bool
  underline :: bool

record RichTextItem =
  content :: string
  link :: "string option"
  annotations :: "annotations option"

definition plainItem :: "string \<Rightarrow> RichTextItem" where
  "plainItem s = \<lparr>content = s, link = None, annotations = None\<rparr>"

subsection \<open>The regular expressions\<close>

text \<open>
  \<open>X+?\<close> followed by the rest \<open>k\<close> of the pattern, by backtracking: one code unit of
  the class, then the rest of the pattern where it matches, otherwise one more code unit.
  The result is the number of code units of \<open>X+?\<close> and what the rest returns.
\<close>

fun lazyPlus :: "(char \<Rightarrow> bool) \<Rightarrow> (string \<Rightarrow> 'a option) \<Rightarrow> string \<Rightarrow> (nat \<times> 'a) option" where
  "lazyPlus X k [] = None"
| "lazyPlus X k (c # cs) =
     (if X c then
        (case k cs of
           Some r \<Rightarrow> Some (1, r)
         | None \<Rightarrow> (case lazyPlus X k cs of Some (n, r) \<Rightarrow> Some (Suc n, r) | None \<Rightarrow> None))
      else None)"

text \<open>A literal that ends the pattern.\<close>

definition lit :: "string \<Rightarrow> string \<Rightarrow> unit option" where
  "lit p s = (if startsWith p s then Some () else None)"

text \<open>
  A pattern matched at index \<open>i\<close> of the text gives the length of the match and its
  groups. \<open>delimited opn cls\<close> is \<open>opn(.+?)cls\<close> for two literals: the patterns
  \<open>\*\*\*(.+?)\*\*\*\<close>, \<open>\*\*(.+?)\*\*\<close>, \<open>_(.+?)_\<close> and \<open>`(.+?)`\<close>.
\<close>

definition delimited :: "string \<Rightarrow> string \<Rightarrow> string \<Rightarrow> nat \<Rightarrow> (nat \<times> string) option" where
  "delimited opn cls text i =
     (let s = drop i text in
      if startsWith opn s then
        (case lazyPlus isDot (lit cls) (drop (length opn) s) of
           Some (n, _) \<Rightarrow> Some (length opn + n + length cls, take n (drop (length opn) s))
         | None \<Rightarrow> None)
      else None)"

text \<open>\<open>(?<!\*)\*([^*]+?)\*(?!\*)\<close>: the look-behind reads the text before the index.\<close>

definition italicStar :: "string \<Rightarrow> nat \<Rightarrow> (nat \<times> string) option" where
  "italicStar text i =
     (let s = drop i text in
      if 0 < i \<and> text ! (i - 1) = CHR ''*'' then None
      else if startsWith ''*'' s then
        (case lazyPlus (\<lambda>c. c \<noteq> CHR ''*'')
                (\<lambda>r. if startsWith ''*'' r \<and> \<not> startsWith ''*'' (drop 1 r) then Some () else None)
                (drop 1 s) of
           Some (n, _) \<Rightarrow> Some (n + 2, take n (drop 1 s))
         | None \<Rightarrow> None)
      else None)"

text \<open>\<open>\[(.+?)\]\((.+?)\)\<close>, with the groups 1 and 2.\<close>

definition linkPattern :: "string \<Rightarrow> nat \<Rightarrow> (nat \<times> string \<times> string) option" where
  "linkPattern text i =
     (let s = drop i text in
      if startsWith ''['' s then
        (case lazyPlus isDot
                (\<lambda>r. if startsWith '']('' r then
                        (case lazyPlus isDot (lit '')'') (drop 2 r) of
                           Some (n2, _) \<Rightarrow> Some n2
                         | None \<Rightarrow> None)
                      else None)
                (drop 1 s) of
           Some (n1, n2) \<Rightarrow>
             Some (1 + n1 + 2 + n2 + 1, take n1 (drop 1 s), take n2 (drop (1 + n1 + 2) s))
         | None \<Rightarrow> None)
      else None)"

text \<open>
  \<open>text.matchAll(re)\<close> for a global regular expression: the matches from left to
  right. The search tries each index from \<open>lastIndex\<close> up to the length of the text;
  after a match it goes on where the match ended (one code unit further after an empty
  match). A match is its index, its length and its groups.
\<close>

function matchAll :: "(string \<Rightarrow> nat \<Rightarrow> (nat \<times> 'g) option) \<Rightarrow> string \<Rightarrow> nat \<Rightarrow> (nat \<times> nat \<times> 'g) list" where
  "matchAll pat text i =
     (if length text < i then []
      else (case pat text i of
              Some (len, g) \<Rightarrow> (i, len, g) # matchAll pat text (i + max 1 len)
            | None \<Rightarrow> matchAll pat text (Suc i)))"
  by pat_completeness auto
termination
  by (relation "measure (\<lambda>(pat, text, i). Suc (length text) - i)") auto

declare matchAll.simps [simp del]

subsection \<open>Candidate matches\<close>

text \<open>
  An entry of \<open>allMatches\<close>. The fields \<open>bold\<close>, \<open>italic\<close>, \<open>code\<close> and \<open>link\<close> are
  optional in the source: \<open>None\<close> is a field that was not set.
\<close>

record Match =
  m_start :: nat
  m_end :: nat
  m_content :: string
  m_bold :: "bool option"
  m_italic :: "bool option"
  m_code :: "bool option"
  m_link :: "string option"

definition boldItalicMatch :: "nat \<times> nat \<times> string \<Rightarrow> Match" where
  "boldItalicMatch r = (case r of (i, len, g) \<Rightarrow>
     \<lparr>m_start = i, m_end = i + len, m_content = g, m_bold = Some True, m_italic = Some True,
      m_code = None, m_link = None\<rparr>)"

definition boldMatch :: "nat \<times> nat \<times> string \<Rightarrow> Match" where
  "boldMatch r = (case r of (i, len, g) \<Rightarrow>
     \<lparr>m_start = i, m_end = i + len, m_content = g, m_bold = Some True, m_italic = None,
      m_code = None, m_link = None\<rparr>)"

definition italicMatch :: "nat \<times> nat \<times> string \<Rightarrow> Match" where
  "italicMatch r = (case r of (i, len, g) \<Rightarrow>
     \<lparr>m_start = i, m_end = i + len, m_content = g, m_bold = None, m_italic = Some True,
      m_code = None, m_link = None\<rparr>)"

definition codeMatch :: "nat \<times> nat \<times> string \<Rightarrow> Match" where
  "codeMatch r = (case r of (i, len, g) \<Rightarrow>
     \<lparr>m_start = i, m_end = i + len, m_content = g, m_bold = None, m_italic = None,
      m_code = Some True, m_link = None\<rparr>)"

definition linkMatch :: "nat \<times> nat \<times> string \<times> string \<Rightarrow> Match" where
  "linkMatch r = (case r of (i, len, g1, g2) \<Rightarrow>
     \<lparr>m_start = i, m_end = i + len, m_content = g1, m_bold = None, m_italic = None,
      m_code = None, m_link = Some g2\<rparr>)"

text \<open>
  The body of the loops after the first one: the candidate is pushed unless an entry
  of \<open>allMatches\<close> covers its interval.
\<close>

definition pushUncovered :: "Match list \<Rightarrow> Match \<Rightarrow> Match list" where
  "pushUncovered allMatches m =
     (if list_ex (\<lambda>x. m_start x \<le> m_start m \<and> m_end m \<le> m_end x) allMatches then allMatches
      else allMatches @ [m])"

definition collectMatches :: "string \<Rightarrow> Match list" where
  "collectMatches text =
     (let all1 = map boldItalicMatch (matchAll (delimited ''***'' ''***'') text 0);
          all2 = foldl pushUncovered all1 (map boldMatch (matchAll (delimited ''**'' ''**'') text 0));
          all3 = foldl pushUncovered all2 (map italicMatch (matchAll italicStar text 0));
          all4 = foldl pushUncovered all3 (map italicMatch (matchAll (delimited ''_'' ''_'') text 0));
          all5 = foldl pushUncovered all4 (map codeMatch (matchAll (delimited ''`'' ''`'') text 0));
          all6 = foldl pushUncovered all5 (map linkMatch (matchAll linkPattern text 0))
      in all6)"

subsection \<open>Building the spans\<close>

text \<open>The formatted span of a match; \<open>if (match.link)\<close> is false for an empty URL too.\<close>

definition formattedItem :: "Match \<Rightarrow> RichTextItem" where
  "formattedItem m =
     \<lparr>content = m_content m,
      link = (case m_link m of None \<Rightarrow> None | Some u \<Rightarrow> if u = [] then None else Some u),
      annotations = Some
        \<lparr>bold = (case m_bold m of None \<Rightarrow> False | Some b \<Rightarrow> b),
         italic = (case m_italic m of None \<Rightarrow> False | Some b \<Rightarrow> b),
         code = (case m_code m of None \<Rightarrow> False | Some b \<Rightarrow> b),
         strikethrough = False, underline = False\<rparr>\<rparr>"

text \<open>The loop over the sorted matches, with its variables \<open>pos\<close> and \<open>result\<close>.\<close>

fun buildLoop :: "string \<Rightarrow> Match list \<Rightarrow> nat \<Rightarrow> RichTextItem list \<Rightarrow> nat \<times> RichTextItem list" where
  "buildLoop text [] pos result = (pos, result)"
| "buildLoop text (m # ms) pos result =
     (if m_start m < pos then buildLoop text ms pos result
      else
        (let plainText = slice text pos (m_start m);
             result1 = (if pos < m_start m \<and> plainText \<noteq> [] then result @ [plainItem plainText]
                        else result)
         in buildLoop text ms (m_end m) (result1 @ [formattedItem m])))"

text \<open>\<open>allMatches.sort((a, b) => a.start - b.start)\<close> is a stable sort on \<open>start\<close>.\<close>

definition parseInlineFormatting :: "string \<Rightarrow> RichTextItem list" where
  "parseInlineFormatting text =
     (let allMatches = sort_key m_start (collectMatches text);
          (pos, result) = buildLoop text allMatches 0 [];
          result1 = (if pos < length text then result @ [plainItem (drop pos text)] else result);
          result2 = (if length result1 = 0 then result1 @ [plainItem text] else result1)
      in result2)"

subsection \<open>The source intervals of the spans\<close>

text \<open>
  The same loop, recording for each span it pushes where the span comes from: a gap
  \<open>[a, b)\<close> of the text, or a match.
\<close>

datatype piece = Gap nat nat | Hit Match

fun buildPieces :: "string \<Rightarrow> Match list \<Rightarrow> nat \<Rightarrow> piece list \<Rightarrow> nat \<times> piece list" where
  "buildPieces text [] pos result = (pos, result)"
| "buildPieces text (m # ms) pos result =
     (if m_start m < pos then buildPieces text ms pos result
      else
        (let plainText = slice text pos (m_start m);
             result1 = (if pos < m_start m \<and> plainText \<noteq> [] then result @ [Gap pos (m_start m)]
                        else result)
         in buildPieces text ms (m_end m) (result1 @ [Hit m])))"

definition pieces :: "string \<Rightarrow> piece list" where
  "pieces text =
     (let allMatches = sort_key m_start (collectMatches text);
          (pos, result) = buildPieces text allMatches 0 [];
          result1 = (if pos < length text then result @ [Gap pos (length text)] else result);
          result2 = (if length result1 = 0 then result1 @ [Gap 0 (length text)] else result1)
      in result2)"

fun interval :: "piece \<Rightarrow> nat \<times> nat" where
  "interval (Gap a b) = (a, b)"
| "interval (Hit m) = (m_start m, m_end m)"

definition sourceOf :: "string \<Rightarrow> piece \<Rightarrow> string" where
  "sourceOf text p = (case interval p of (a, b) \<Rightarrow> slice text a b)"

fun render :: "string \<Rightarrow> piece \<Rightarrow> RichTextItem" where
  "render text (Gap a b) = plainItem (slice text a b)"
| "render text (Hit m) = formattedItem m"

text \<open>
  What a match keeps of its source: the source is the content between the delimiters
  of one of the patterns (for a link, followed by the URL in parentheses).
\<close>

definition wraps :: "string \<Rightarrow> Match \<Rightarrow> bool" where
  "wraps src m =
     (case m_link m of
        Some u \<Rightarrow> src = ''['' @ m_content m @ '']('' @ u @ '')''
      | None \<Rightarrow>
          if m_bold m = Some True \<and> m_italic m = Some True then src = ''***'' @ m_content m @ ''***''
          else if m_bold m = Some True then src = ''**'' @ m_content m @ ''**''
          else if m_italic m = Some True then
            (src = ''*'' @ m_content m @ ''*'' \<or> src = ''_'' @ m_content m @ ''_'')
          else src = ''`'' @ m_content m @ ''`'')"

fun wrapped :: "string \<Rightarrow> piece \<Rightarrow> bool" where
  "wrapped text (Gap a b) = True"
| "wrapped text (Hit m) = wraps (slice text (m_start m) (m_end m)) m"

text \<open>A candidate is well formed for a text: a non-empty interval of the text that it wraps.\<close>

definition good :: "string \<Rightarrow> Match \<Rightarrow> bool" where
  "good text m = (m_start m < m_end m \<and> m_end m \<le> length text
     \<and> wraps (slice text (m_start m) (m_end m)) m)"

section \<open>Block tokenizer (parser.ts, markdownToBlocks)\<close>

text \<open>
  A block of the result. A bulleted list item has a \<open>children\<close> field only when it has
  children; a code block has its language.
\<close>

datatype block =
    Paragraph "RichTextItem list"
  | Heading1 "RichTextItem list"
  | Heading2 "RichTextItem list"
  | Heading3 "RichTextItem list"
  | BulletedListItem "RichTextItem list" "block list option"
  | NumberedListItem "RichTextItem list"
  | Code "RichTextItem list" string
  | Quote "RichTextItem list"

subsection \<open>The tests on a line\<close>

text \<open>\<open>/^[-*]\s/.test(l)\<close>.\<close>

definition isBulletLine :: "string \<Rightarrow> bool" where
  "isBulletLine l = (case l of
       c # d # _ \<Rightarrow> (c = CHR ''-'' \<or> c = CHR ''*'') \<and> isSpace d
     | _ \<Rightarrow> False)"

text \<open>
  The length of the match of \<open>/^\s{2,}[-*]\s/\<close>, if there is one. The greedy \<open>\s{2,}\<close>
  takes all the white space at the start of the line, and giving some of it back never
  helps: the next code unit would be white space, which is neither \<open>-\<close> nor \<open>*\<close>.
\<close>

definition nestedBulletPrefix :: "string \<Rightarrow> nat option" where
  "nestedBulletPrefix l =
     (let n = length (takeWhile isSpace l) in
      if 2 \<le> n \<and> isBulletLine (drop n l) then Some (n + 2) else None)"

text \<open>
  The length of the match of \<open>/^\s+>\s?/\<close>: all the white space at the start (one code
  unit at least), the marker, and one code unit of white space if there is one.
\<close>

definition nestedQuotePrefix :: "string \<Rightarrow> nat option" where
  "nestedQuotePrefix l =
     (let n = length (takeWhile isSpace l) in
      if 1 \<le> n \<and> startsWith ''>'' (drop n l) then
        Some (n + 1 + (case drop (n + 1) l of [] \<Rightarrow> 0 | c # _ \<Rightarrow> if isSpace c then 1 else 0))
      else None)"

text \<open>The length of the match of \<open>/^\d+\.\s/\<close>: the digits, the dot, one white space.\<close>

definition numberedPrefix :: "string \<Rightarrow> nat option" where
  "numberedPrefix l =
     (let n = length (takeWhile isDigit l) in
      if 1 \<le> n \<and> (case drop n l of c # d # _ \<Rightarrow> c = CHR ''.'' \<and> isSpace d | _ \<Rightarrow> False)
      then Some (n + 2) else None)"

text \<open>\<open>re.test(l)\<close> and \<open>l.replace(re, '')\<close> for a pattern anchored at the start.\<close>

definition test :: "(string \<Rightarrow> nat option) \<Rightarrow> string \<Rightarrow> bool" where
  "test re l = (re l \<noteq> None)"

definition strip :: "(string \<Rightarrow> nat option) \<Rightarrow> string \<Rightarrow> string" where
  "strip re l = (case re l of None \<Rightarrow> l | Some n \<Rightarrow> drop n l)"

text \<open>The condition of the paragraph loop on a line.\<close>

definition isParagraphLine :: "string \<Rightarrow> bool" where
  "isParagraphLine l = (trim l \<noteq> [] \<and> \<not> startsWith ''#'' l \<and> \<not> startsWith ''```'' l
     \<and> \<not> startsWith ''> '' l \<and> \<not> isBulletLine l \<and> \<not> test numberedPrefix l)"

subsection \<open>The loops\<close>

text \<open>
  The functions below work on the lines from index \<open>i\<close> on, \<open>lines.slice(i)\<close>. A loop
  \<open>while (i < lines.length && P(lines[i])) { \<dots>; i++ }\<close> visits \<open>takeWhile P\<close> of them and
  leaves \<open>dropWhile P\<close>.

  The loop of a bullet list: each round takes the line of an item, then the indented
  bullets that follow it, then the indented quote lines that follow those. The result
  is the blocks pushed and the lines left.
\<close>

function bulletRun :: "string list \<Rightarrow> block list \<times> string list" where
  "bulletRun [] = ([], [])"
| "bulletRun (l # ls) =
     (if isBulletLine l then
        (let itemText = drop 2 l;
             subItems = takeWhile (test nestedBulletPrefix) ls;
             ls1 = dropWhile (test nestedBulletPrefix) ls;
             nestedQuoteLines = map (strip nestedQuotePrefix) (takeWhile (test nestedQuotePrefix) ls1);
             ls2 = dropWhile (test nestedQuotePrefix) ls1;
             children = map (\<lambda>s. BulletedListItem (parseInlineFormatting (strip nestedBulletPrefix s)) None)
                          subItems
                        @ (if 0 < length nestedQuoteLines
                           then [Quote (parseInlineFormatting (join [NL] nestedQuoteLines))] else []);
             item = (if 0 < length children
                     then BulletedListItem (parseInlineFormatting itemText) (Some children)
                     else BulletedListItem (parseInlineFormatting itemText) None)
         in (case bulletRun ls2 of (items, rest) \<Rightarrow> (item # items, rest)))
      else ([], l # ls))"
  by pat_completeness auto
termination
proof (relation "measure length")
  show "wf (measure length)" by simp
next
  fix l :: string and ls x xa xb xc :: "string list"
  assume "xa = dropWhile (test nestedBulletPrefix) ls" "xc = dropWhile (test nestedQuotePrefix) xa"
  then have "length xc \<le> length ls"
    using length_dropWhile_le[of "test nestedQuotePrefix" xa]
      length_dropWhile_le[of "test nestedBulletPrefix" ls] by simp
  then show "(xc, l # ls) \<in> measure length" by simp
qed

declare bulletRun.simps [simp del]

text \<open>
  The main loop. A call that never returns has the value \<open>None\<close>.
\<close>

partial_function (option) blocksLoop :: "string list \<Rightarrow> block list \<Rightarrow> block list option" where
  "blocksLoop ls blocks =
     (case ls of
        [] \<Rightarrow> Some blocks
      | line # rest \<Rightarrow>
          if trim line = [] then blocksLoop rest blocks
          else if startsWith ''```'' line then
            (let language = (if trim (drop 3 line) = [] then ''plain text'' else trim (drop 3 line));
                 codeLines = takeWhile (\<lambda>l. \<not> startsWith ''```'' l) rest
             in blocksLoop (drop 1 (dropWhile (\<lambda>l. \<not> startsWith ''```'' l) rest))
                  (blocks @ [Code [plainItem (join [NL] codeLines)] (mapLanguage language)]))
          else if startsWith ''# '' line then
            blocksLoop rest (blocks @ [Heading1 (parseInlineFormatting (drop 2 line))])
          else if startsWith ''## '' line then
            blocksLoop rest (blocks @ [Heading2 (parseInlineFormatting (drop 3 line))])
          else if startsWith ''### '' line then
            blocksLoop rest (blocks @ [Heading3 (parseInlineFormatting (drop 4 line))])
          else if isBulletLine line then
            (case bulletRun ls of (items, rest') \<Rightarrow> blocksLoop rest' (blocks @ items))
          else if test numberedPrefix line then
            (let items = map (strip numberedPrefix) (takeWhile (test numberedPrefix) ls)
             in blocksLoop (dropWhile (test numberedPrefix) ls)
                  (blocks @ map (\<lambda>item. NumberedListItem (parseInlineFormatting item)) items))
          else if startsWith ''> '' line then
            (let quoteLines = map (drop 2) (takeWhile (startsWith ''> '') ls)
             in blocksLoop (dropWhile (startsWith ''> '') ls)
                  (blocks @ [Quote (parseInlineFormatting (join [NL] quoteLines))]))
          else
            (let paragraphLines = takeWhile isParagraphLine ls
             in blocksLoop (dropWhile isParagraphLine ls)
                  (if 0 < length paragraphLines
                   then blocks @ [Paragraph (parseInlineFormatting (join '' '' paragraphLines))]
                   else blocks)))"

declare blocksLoop.simps [code]

definition markdownToBlocks :: "string \<Rightarrow> block list option" where
  "markdownToBlocks markdown = blocksLoop (split NL markdown) []"

text \<open>
  A line that starts with \<open>#\<close> and is no heading of level 1 to 3: four hashes or more,
  or no space after the hashes.
\<close>

definition hashStuck :: "string \<Rightarrow> bool" where
  "hashStuck l = (startsWith ''#'' l \<and> \<not> startsWith ''# '' l \<and> \<not> startsWith ''## '' l
     \<and> \<not> startsWith ''### '' l)"

section \<open>HTML normalizer (html-to-markdown.js)\<close>

subsection \<open>The document tree\<close>

text \<open>
  A node of the tree that the browser builds from the HTML: a text node, an element
  with its \<open>tagName\<close>, its attributes and its child nodes, or a node of another type
  (a comment).
\<close>

datatype node =
    TextNode string
  | Element string "(string \<times> string) list" "node list"
  | Comment string

fun childNodes :: "node \<Rightarrow> node list" where
  "childNodes (Element t as cs) = cs"
| "childNodes n = []"

fun isElement :: "node \<Rightarrow> bool" where
  "isElement (Element t as cs) = True"
| "isElement n = False"

text \<open>\<open>el.tagName.toLowerCase()\<close>.\<close>

fun tagOf :: "node \<Rightarrow> string" where
  "tagOf (Element t as cs) = toLowerCase t"
| "tagOf n = []"

text \<open>\<open>el.getAttribute(name)\<close>: \<open>None\<close> is \<open>null\<close>.\<close>

fun getAttribute :: "node \<Rightarrow> string \<Rightarrow> string option" where
  "getAttribute (Element t as cs) name = map_of as name"
| "getAttribute n name = None"

text \<open>\<open>node.textContent\<close>: the text nodes below the node, in document order.\<close>

fun textContent :: "node \<Rightarrow> string" where
  "textContent (TextNode s) = s"
| "textContent (Element t as cs) = concat (map textContent cs)"
| "textContent (Comment s) = []"

text \<open>The elements below a node, in document order.\<close>

fun descendants :: "node \<Rightarrow> node list" where
  "descendants (Element t as cs) = concat (map (\<lambda>c. if isElement c then c # descendants c else []) cs)"
| "descendants n = []"

definition querySelectorAll :: "string \<Rightarrow> node \<Rightarrow> node list" where
  "querySelectorAll tag el = filter (\<lambda>d. tagOf d = tag) (descendants el)"

definition querySelector :: "string \<Rightarrow> node \<Rightarrow> node option" where
  "querySelector tag el = (case querySelectorAll tag el of [] \<Rightarrow> None | d # _ \<Rightarrow> Some d)"

subsection \<open>Helpers of the rules\<close>

text \<open>
  \<open>className.match(/language-(\w+)/)?.[1] || ''\<close>: group 1 of the leftmost match, the
  longest run of word characters after \<open>language-\<close>.
\<close>

fun languageToken :: "string \<Rightarrow> string" where
  "languageToken [] = []"
| "languageToken (c # cs) =
     (if startsWith ''language-'' (c # cs) \<and> takeWhile isWord (drop 9 (c # cs)) \<noteq> []
      then takeWhile isWord (drop 9 (c # cs))
      else languageToken cs)"

text \<open>\<open>s.replace(/\|/g, '\\|')\<close>.\<close>

definition replacePipes :: "string \<Rightarrow> string" where
  "replacePipes s = concat (map (\<lambda>c. if c = CHR ''|'' then [BSLASH, CHR ''|''] else [c]) s)"

text \<open>The decimal digits of a number, for \<open>`${index}. `\<close>.\<close>

fun decimal :: "nat \<Rightarrow> string" where
  "decimal n = (if n < 10 then [char_of (48 + n)] else decimal (n div 10) @ [char_of (48 + n mod 10)])"

declare decimal.simps [simp del]

subsection \<open>The table\<close>

text \<open>
  The first loop of \<open>processTable\<close>, on the cells of each \<open>tr\<close>: the variables are
  \<open>rows\<close> and \<open>maxCols\<close>.
\<close>

fun collectRows :: "string list list \<Rightarrow> string list list \<Rightarrow> nat \<Rightarrow> string list list \<times> nat" where
  "collectRows [] rows maxCols = (rows, maxCols)"
| "collectRows (cells # rest) rows maxCols =
     (if 0 < length cells then collectRows rest (rows @ [cells]) (max maxCols (length cells))
      else collectRows rest rows maxCols)"

text \<open>\<open>while (row.length < maxCols) row.push('')\<close>.\<close>

function padRow :: "nat \<Rightarrow> string list \<Rightarrow> string list" where
  "padRow maxCols row = (if length row < maxCols then padRow maxCols (row @ [[]]) else row)"
  by pat_completeness auto
termination
  by (relation "measure (\<lambda>(maxCols, row). maxCols - length row)") auto

declare padRow.simps [simp del]

text \<open>A line of the table: \<open>'| ' + row.join(' | ') + ' |\n'\<close>.\<close>

definition tableLine :: "string list \<Rightarrow> string" where
  "tableLine row = ''| '' @ join '' | '' row @ '' |'' @ [NL]"

text \<open>The rest of \<open>processTable\<close>, from the cells of each \<open>tr\<close>.\<close>

definition buildTable :: "string list list \<Rightarrow> string" where
  "buildTable allCells =
     (case collectRows allCells [] 0 of (rows0, maxCols) \<Rightarrow>
        (case map (padRow maxCols) rows0 of
           [] \<Rightarrow> []
         | first # others \<Rightarrow>
             tableLine first @ tableLine (map (\<lambda>_. ''---'') first) @ concat (map tableLine others)))"

subsection \<open>The rules\<close>

text \<open>
  \<open>processNode\<close> of an element goes through its child nodes; \<open>processElement\<close> gets,
  with the element, whether its parent element is a \<open>pre\<close>, which is all it reads of
  \<open>el.parentElement\<close>. \<open>processList\<close> is the loop of the source's \<open>processList\<close> over the
  children that are left, with the variable \<open>index\<close>; its first argument is whether the
  type is \<open>ol\<close>.
\<close>

lemma size_member: "x \<in> set xs \<Longrightarrow> size (x :: node) < size_list size xs"
  by (induction xs) auto

lemma size_childNodes: "x \<in> set (childNodes n) \<Longrightarrow> size x < size n"
  by (cases n) (auto dest: size_member)

lemma size_descendants: "d \<in> set (descendants n) \<Longrightarrow> size d < size n"
proof (induction n arbitrary: d rule: descendants.induct)
  case (1 t as cs)
  from "1.prems" obtain c where c: "c \<in> set cs" "isElement c" "d = c \<or> d \<in> set (descendants c)"
    by (auto split: if_splits)
  have "size c < size_list size cs" using c(1) by (rule size_member)
  moreover have "size d \<le> size c"
    using c(3) "1.IH"[OF c(1,2)] by (auto intro: less_imp_le)
  ultimately show ?case by simp
qed simp_all

function (sequential)
  processNode :: "node \<Rightarrow> string" and
  processElement :: "bool \<Rightarrow> node \<Rightarrow> string" and
  processList :: "bool \<Rightarrow> nat \<Rightarrow> node list \<Rightarrow> string" and
  processTable :: "node \<Rightarrow> string"
where
  "processNode (Element t as cs) =
     concat (map (\<lambda>child. case child of
                     TextNode s \<Rightarrow> s
                   | Element t' as' cs' \<Rightarrow> processElement (toLowerCase t = ''pre'') child
                   | Comment s \<Rightarrow> []) cs)"
| "processNode n = []"
| "processElement parentIsPre (Element t as cs) =
     (let el = Element t as cs; tag = toLowerCase t in
      if tag = ''strong'' \<or> tag = ''b'' then ''**'' @ processNode el @ ''**''
      else if tag = ''em'' \<or> tag = ''i'' then ''*'' @ processNode el @ ''*''
      else if tag = ''code'' then
        (if parentIsPre then processNode el else ''`'' @ processNode el @ ''`'')
      else if tag = ''a'' then
        (let href = getAttribute el ''href''; text = processNode el in
         case href of
           None \<Rightarrow> text
         | Some h \<Rightarrow> if h \<noteq> [] \<and> \<not> startsWith ''javascript:'' h
                     then ''['' @ text @ '']('' @ h @ '')'' else text)
      else if tag = ''br'' then [NL]
      else if tag = ''p'' then processNode el @ [NL, NL]
      else if tag = ''div'' then processNode el @ [NL]
      else if tag = ''h1'' then ''# '' @ processNode el @ [NL, NL]
      else if tag = ''h2'' then ''## '' @ processNode el @ [NL, NL]
      else if tag = ''h3'' then ''### '' @ processNode el @ [NL, NL]
      else if tag = ''h4'' then ''#### '' @ processNode el @ [NL, NL]
      else if tag = ''h5'' then ''##### '' @ processNode el @ [NL, NL]
      else if tag = ''h6'' then ''###### '' @ processNode el @ [NL, NL]
      else if tag = ''ul'' then processList False 1 cs @ [NL]
      else if tag = ''ol'' then processList True 1 cs @ [NL]
      else if tag = ''li'' then processNode el
      else if tag = ''pre'' then
        (let codeEl = querySelector ''code'' el;
             lang = (case codeEl of
                       None \<Rightarrow> []
                     | Some c \<Rightarrow> languageToken (case getAttribute c ''class'' of None \<Rightarrow> [] | Some v \<Rightarrow> v));
             code = (case codeEl of None \<Rightarrow> textContent el | Some c \<Rightarrow> textContent c)
         in [NL] @ ''```'' @ lang @ [NL] @ code @ [NL] @ ''```'' @ [NL])
      else if tag = ''blockquote'' then
        (let inner = trim (processNode el);
             lines = map (\<lambda>line. ''> '' @ line) (split NL inner)
         in join [NL] lines @ [NL, NL])
      else if tag = ''hr'' then [NL] @ ''---'' @ [NL, NL]
      else if tag = ''script'' \<or> tag = ''style'' \<or> tag = ''noscript'' \<or> tag = ''template'' then []
      else if tag = ''img'' then
        (let alt = (case getAttribute el ''alt'' of None \<Rightarrow> [] | Some v \<Rightarrow> v);
             src = (case getAttribute el ''src'' of None \<Rightarrow> [] | Some v \<Rightarrow> v)
         in if alt \<noteq> [] then ''['' @ alt @ '']''
            else if src \<noteq> [] then ''[image: '' @ src @ '']''
            else [])
      else if tag = ''table'' then processTable el @ [NL, NL]
      else processNode el)"
| "processElement parentIsPre n = []"
| "processList ordered index [] = []"
| "processList ordered index (Element t as cs # rest) =
     (if toLowerCase t = ''li'' then
        (let prefix = (if ordered then decimal index @ ''. '' else ''- '');
             content = trim (processNode (Element t as cs))
         in prefix @ content @ [NL] @ processList ordered (index + 1) rest)
      else processList ordered index rest)"
| "processList ordered index (n # rest) = processList ordered index rest"
| "processTable (Element t as cs) =
     buildTable
       (map (\<lambda>tr. map (\<lambda>cell. replacePipes (trim (processNode cell)))
                     (filter (\<lambda>cell. tagOf cell = ''td'' \<or> tagOf cell = ''th'') (filter isElement (childNodes tr))))
            (querySelectorAll ''tr'' (Element t as cs)))"
| "processTable n = []"
  by pat_completeness auto
termination
  apply (relation "inv_image (less_than <*lex*> less_than)
     (\<lambda>x. case x of
        Inl (Inl n) \<Rightarrow> (size n, 0::nat)
      | Inl (Inr (b, n)) \<Rightarrow> (size n, 2)
      | Inr (Inl (b, i, ns)) \<Rightarrow> (size_list size ns, 0)
      | Inr (Inr n) \<Rightarrow> (size n, 1))")
                      apply simp_all
  subgoal
    by (intro wf_inv_image wf_lex_prod wf_less_than)
  subgoal for cs x t' as' cs'
    using size_member[of x cs] by simp
  subgoal for t as cs tr cell
    using size_descendants[of tr "Element t as cs"] size_childNodes[of cell tr]
    by (auto simp: querySelectorAll_def)
  done

declare processNode.simps [simp del]
declare processElement.simps [simp del]
declare processTable.simps [simp del]

subsection \<open>The entry points\<close>

text \<open>The argument of \<open>htmlToMarkdown\<close>: any JavaScript value.\<close>

datatype jsValue = JSNull | JSUndefined | JSString string | JSOther

text \<open>What a statement that may throw does.\<close>

datatype 'a outcome = Returns 'a | Throws

text \<open>
  \<open>html.replace(/<[^>]*>/g, '')\<close>: a \<open><\<close> with a \<open>>\<close> somewhere after it is removed
  with everything up to the first such \<open>>\<close>.
\<close>

function stripTags :: "string \<Rightarrow> string" where
  "stripTags [] = []"
| "stripTags (c # cs) =
     (if c = CHR ''<'' \<and> CHR ''>'' \<in> set cs
      then stripTags (drop 1 (dropWhile (\<lambda>d. d \<noteq> CHR ''>'') cs))
      else c # stripTags cs)"
  by pat_completeness auto
termination
proof (relation "measure length")
  show "wf (measure length)" by simp
next
  fix c :: char and cs :: string
  have "length (dropWhile (\<lambda>d. d \<noteq> CHR ''>'') cs) \<le> length cs" by (rule length_dropWhile_le)
  then show "(drop 1 (dropWhile (\<lambda>d. d \<noteq> CHR ''>'') cs), c # cs) \<in> measure length" by simp
next
  fix c :: char and cs :: string
  show "(cs, c # cs) \<in> measure length" by simp
qed

text \<open>
  The browser is a parameter \<open>parseInto\<close>: \<open>document.createElement('div')\<close> followed by
  \<open>temp.innerHTML = html\<close> gives the element \<open>temp\<close> with the parsed nodes as children,
  or throws.

  In \<open>stripHtml\<close>, \<open>temp.textContent || temp.innerText || ''\<close> is the text content:
  where it is empty, so is the inner text of an element that is not rendered.
\<close>

definition stripHtml :: "(string \<Rightarrow> node outcome) \<Rightarrow> string \<Rightarrow> string outcome" where
  "stripHtml parseInto html =
     (case parseInto html of
        Returns temp \<Rightarrow> Returns (textContent temp)
      | Throws \<Rightarrow> Returns (stripTags html))"

definition htmlToMarkdown :: "(string \<Rightarrow> node outcome) \<Rightarrow> jsValue \<Rightarrow> string outcome" where
  "htmlToMarkdown parseInto html =
     (case html of
        JSString s \<Rightarrow>
          if s = [] then Returns []
          else (case parseInto s of
                  Returns temp \<Rightarrow> Returns (trim (processNode temp))
                | Throws \<Rightarrow> stripHtml parseInto s)
      | _ \<Rightarrow> Returns [])"

subsection \<open>The table as the specification words it\<close>

text \<open>The cells that \<open>processTable\<close> reads off each \<open>tr\<close> of a table.\<close>

definition tableCells :: "node \<Rightarrow> string list list" where
  "tableCells el =
     map (\<lambda>tr. map (\<lambda>cell. replacePipes (trim (processNode cell)))
                   (filter (\<lambda>cell. tagOf cell = ''td'' \<or> tagOf cell = ''th'') (filter isElement (childNodes tr))))
         (querySelectorAll ''tr'' el)"

text \<open>The rows with a cell at least, and the largest number of cells among them.\<close>

definition survivingRows :: "string list list \<Rightarrow> string list list" where
  "survivingRows allCells = filter (\<lambda>cells. cells \<noteq> []) allCells"

definition maxColumns :: "string list list \<Rightarrow> nat" where
  "maxColumns allCells = Max (set (0 # map length (survivingRows allCells)))"

text \<open>Every surviving row, with empty cells added up to the largest number of cells.\<close>

definition normalizedRows :: "string list list \<Rightarrow> string list list" where
  "normalizedRows allCells =
     map (\<lambda>row. row @ replicate (maxColumns allCells - length row) []) (survivingRows allCells)"

text \<open>The header row, a separator row with \<open>---\<close> for each column, the other rows.\<close>

definition tableMarkdown :: "string list list \<Rightarrow> string" where
  "tableMarkdown rows =
     (case rows of
        [] \<Rightarrow> []
      | header # others \<Rightarrow>
          tableLine header @ tableLine (replicate (length header) ''---'')
            @ concat (map tableLine others))"

text \<open>Every \<open>|\<close> of a string comes right after a backslash.\<close>

fun pipesEscaped :: "char option \<Rightarrow> string \<Rightarrow> bool" where
  "pipesEscaped prev [] = True"
| "pipesEscaped prev (c # cs) = ((c = CHR ''|'' \<longrightarrow> prev = Some BSLASH) \<and> pipesEscaped (Some c) cs)"

subsection \<open>Example inputs\<close>

text \<open>A browser that parses three strings and throws on every other one.\<close>

definition exampleBrowser :: "string \<Rightarrow> node outcome" where
  "exampleBrowser h =
     (if h = ''<strong><em>x y</em></strong>''
      then Returns (Element ''DIV'' [] [Element ''STRONG'' [] [Element ''EM'' [] [TextNode ''x y'']]])
      else if h = ''<em><strong>x y</strong></em>''
      then Returns (Element ''DIV'' [] [Element ''EM'' [] [Element ''STRONG'' [] [TextNode ''x y'']]])
      else if h = ''<b>x</b>''
      then Returns (Element ''DIV'' [] [Element ''B'' [] [TextNode ''x'']])
      else Throws)"

text \<open>A table with a header of two cells, a row without cells and a row of one cell.\<close>

definition exampleTable :: node where
  "exampleTable =
     Element ''TABLE'' [] [Element ''TBODY'' []
       [Element ''TR'' [] [Element ''TH'' [] [TextNode ''A|b''], Element ''TH'' [] [TextNode '' B '']],
        Element ''TR'' [] [],
        Element ''TR'' [] [Element ''TD'' [] [TextNode ''1'']]]]"


section \<open>Properties of the regular expressions\<close>

lemma lazyPlus_result:
  "lazyPlus X k s = Some (n, r) \<Longrightarrow> 1 \<le> n \<and> n \<le> length s \<and> k (drop n s) = Some r"
proof (induction s arbitrary: n r)
  case Nil
  then show ?case by simp
next
  case (Cons c cs)
  show ?case
  proof (cases "k cs")
    case (Some r')
    with Cons.prems show ?thesis by (auto split: if_splits)
  next
    case None
    with Cons.prems obtain n' where n': "lazyPlus X k cs = Some (n', r)" "n = Suc n'"
      by (auto split: if_splits option.splits)
    from Cons.IH[OF n'(1)] n'(2) show ?thesis by simp
  qed
qed

lemma startsWith_take: "startsWith p s \<Longrightarrow> take (length p) s = p \<and> length p \<le> length s"
  unfolding startsWith_def by (metis nat_le_linear take_all)

lemma take3: "take (a + b + c) s = take a s @ take b (drop a s) @ take c (drop b (drop a s))"
proof -
  have "take (a + b + c) s = take (a + b) s @ take c (drop (a + b) s)"
    by (rule take_add)
  moreover have "take (a + b) s = take a s @ take b (drop a s)"
    by (rule take_add)
  moreover have "drop (a + b) s = drop b (drop a s)"
    by (simp add: add.commute)
  ultimately show ?thesis by simp
qed

lemma delimited_result:
  assumes "delimited opn cls text i = Some (len, g)"
  shows "slice text i (i + len) = opn @ g @ cls \<and> i + len \<le> length text \<and> length opn + 1 + length cls \<le> len"
proof -
  let ?s = "drop i text"
  from assms have sw: "startsWith opn ?s"
    by (auto simp: delimited_def Let_def split: if_splits)
  with assms obtain n u where lp: "lazyPlus isDot (lit cls) (drop (length opn) ?s) = Some (n, u)"
    and len: "len = length opn + n + length cls" and g: "g = take n (drop (length opn) ?s)"
    by (auto simp: delimited_def Let_def split: if_splits option.splits)
  from lazyPlus_result[OF lp] have n: "1 \<le> n" "n \<le> length (drop (length opn) ?s)"
    and k: "lit cls (drop n (drop (length opn) ?s)) = Some u" by auto
  from k have c: "startsWith cls (drop n (drop (length opn) ?s))"
    by (auto simp: lit_def split: if_splits)
  from startsWith_take[OF sw] have o1: "take (length opn) ?s = opn" "length opn \<le> length ?s" by auto
  from startsWith_take[OF c] have c1: "take (length cls) (drop n (drop (length opn) ?s)) = cls"
    "length cls \<le> length (drop n (drop (length opn) ?s))" by auto
  have "take len ?s = opn @ g @ cls"
    unfolding len take3 using o1(1) c1(1) g by simp
  then have "slice text i (i + len) = opn @ g @ cls"
    by (simp add: slice_def)
  moreover have "i + len \<le> length text" using c1(2) n o1(2) len by simp
  ultimately show ?thesis using n len by simp
qed


lemma italicStar_result:
  assumes "italicStar text i = Some (len, g)"
  shows "slice text i (i + len) = ''*'' @ g @ ''*'' \<and> i + len \<le> length text \<and> 3 \<le> len"
proof -
  let ?s = "drop i text"
  let ?k = "\<lambda>r. if startsWith ''*'' r \<and> \<not> startsWith ''*'' (drop 1 r) then Some () else None"
  from assms have sw: "startsWith ''*'' ?s"
    by (auto simp: italicStar_def Let_def split: if_splits)
  with assms obtain n u where lp: "lazyPlus (\<lambda>c. c \<noteq> CHR ''*'') ?k (drop 1 ?s) = Some (n, u)"
    and len: "len = n + 2" and g: "g = take n (drop 1 ?s)"
    by (auto simp: italicStar_def Let_def split: if_splits option.splits)
  from lazyPlus_result[OF lp] have n: "1 \<le> n" "n \<le> length (drop 1 ?s)"
    and k: "?k (drop n (drop 1 ?s)) = Some u" by auto
  from k have c: "startsWith ''*'' (drop n (drop 1 ?s))"
    by (auto split: if_splits)
  from startsWith_take[OF sw] have o1: "take 1 ?s = ''*''" "1 \<le> length ?s" by auto
  from startsWith_take[OF c] have c1: "take 1 (drop n (drop 1 ?s)) = ''*''"
    "1 \<le> length (drop n (drop 1 ?s))" by auto
  have "len = 1 + n + 1" using len by simp
  then have "take len ?s = ''*'' @ g @ ''*''"
    using take3[of 1 n 1 ?s] o1(1) c1(1) g by simp
  then have "slice text i (i + len) = ''*'' @ g @ ''*''"
    by (simp add: slice_def)
  moreover have "i + len \<le> length text" using c1(2) n o1(2) len by simp
  ultimately show ?thesis using n len by simp
qed

lemma take_snoc_lit: "startsWith p (drop a s) \<Longrightarrow> take (a + length p) s = take a s @ p"
  using startsWith_take[of p "drop a s"] by (simp add: take_add)

lemma linkPattern_result:
  assumes "linkPattern text i = Some (len, g1, g2)"
  shows "slice text i (i + len) = ''['' @ g1 @ '']('' @ g2 @ '')'' \<and> i + len \<le> length text \<and> 6 \<le> len"
proof -
  let ?s = "drop i text"
  let ?k = "\<lambda>r. if startsWith '']('' r then
                        (case lazyPlus isDot (lit '')'') (drop 2 r) of
                           Some (n2, _) \<Rightarrow> Some n2
                         | None \<Rightarrow> None)
                      else None"
  from assms have sw: "startsWith ''['' ?s"
    by (auto simp: linkPattern_def Let_def split: if_splits)
  with assms obtain n1 n2 where lp: "lazyPlus isDot ?k (drop 1 ?s) = Some (n1, n2)"
    and len: "len = 1 + n1 + 2 + n2 + 1" and g1: "g1 = take n1 (drop 1 ?s)"
    and g2: "g2 = take n2 (drop (1 + n1 + 2) ?s)"
    by (auto simp: linkPattern_def Let_def split: if_splits option.splits)
  from lazyPlus_result[OF lp] have n1: "1 \<le> n1" "n1 \<le> length (drop 1 ?s)"
    and k: "?k (drop n1 (drop 1 ?s)) = Some n2" by auto
  from k have mid: "startsWith '']('' (drop n1 (drop 1 ?s))"
    by (auto split: if_splits)
  from k obtain u where lp2: "lazyPlus isDot (lit '')'') (drop 2 (drop n1 (drop 1 ?s))) = Some (n2, u)"
    by (auto split: if_splits option.splits)
  from lazyPlus_result[OF lp2] have n2: "1 \<le> n2" "n2 \<le> length (drop 2 (drop n1 (drop 1 ?s)))"
    and k2: "lit '')'' (drop n2 (drop 2 (drop n1 (drop 1 ?s)))) = Some u" by auto
  from k2 have cl: "startsWith '')'' (drop n2 (drop 2 (drop n1 (drop 1 ?s))))"
    by (auto simp: lit_def split: if_splits)
  have d1: "drop n1 (drop 1 ?s) = drop (1 + n1) ?s" by (simp add: add.commute)
  have d2: "drop 2 (drop n1 (drop 1 ?s)) = drop (1 + n1 + 2) ?s" by (simp add: add.commute)
  have d3: "drop n2 (drop 2 (drop n1 (drop 1 ?s))) = drop (1 + n1 + 2 + n2) ?s"
    by (simp add: ac_simps)
  have p1: "take 1 ?s = ''[''" using startsWith_take[OF sw] by simp
  have p2: "take (1 + n1) ?s = ''['' @ g1"
    unfolding take_add[of 1 n1 ?s] p1 g1 by simp
  have p3: "take (1 + n1 + 2) ?s = (''['' @ g1) @ '']('' "
    using take_snoc_lit[of "'']('' " "1 + n1" ?s] mid p2 unfolding d1 by simp
  have p4: "take (1 + n1 + 2 + n2) ?s = ((''['' @ g1) @ '']('') @ g2"
    unfolding take_add[of "1 + n1 + 2" n2 ?s] p3 g2 by simp
  have p5: "take (1 + n1 + 2 + n2 + 1) ?s = (((''['' @ g1) @ '']('') @ g2) @ '')''"
    using take_snoc_lit[of "'')''" "1 + n1 + 2 + n2" ?s] cl p4 unfolding d3 by simp
  have "take len ?s = (((''['' @ g1) @ '']('') @ g2) @ '')''"
    unfolding len by (rule p5)
  then have "slice text i (i + len) = ''['' @ g1 @ '']('' @ g2 @ '')''"
    by (simp add: slice_def)
  moreover have "1 \<le> length (drop (1 + n1 + 2 + n2) ?s)"
    using startsWith_take[OF cl] unfolding d3 by simp
  then have "i + len \<le> length text" using len by simp
  ultimately show ?thesis using n1 n2 len by simp
qed

lemma matchAll_member:
  "(i, len, g) \<in> set (matchAll pat t j) \<Longrightarrow> pat t i = Some (len, g)"
proof (induction pat t j rule: matchAll.induct)
  case (1 pat t j)
  show ?case
  proof (cases "length t < j")
    case True
    with "1.prems" show ?thesis by (simp add: matchAll.simps[of pat t j])
  next
    case False
    show ?thesis
    proof (cases "pat t j")
      case None
      with False "1.prems" have "(i, len, g) \<in> set (matchAll pat t (Suc j))"
        by (simp add: matchAll.simps[of pat t j])
      with "1.IH"(1)[OF False None] show ?thesis by simp
    next
      case (Some r)
      obtain l h where r: "r = (l, h)" by (cases r)
      with Some False "1.prems" have
        "(i, len, g) = (j, l, h) \<or> (i, len, g) \<in> set (matchAll pat t (j + max 1 l))"
        by (simp add: matchAll.simps[of pat t j])
      then show ?thesis
      proof
        assume "(i, len, g) = (j, l, h)"
        with Some r show ?thesis by simp
      next
        assume "(i, len, g) \<in> set (matchAll pat t (j + max 1 l))"
        with "1.IH"(2)[OF False Some r[symmetric]] show ?thesis by simp
      qed
    qed
  qed
qed

section \<open>Properties of the inline span segmentor\<close>

lemma good_boldItalic:
  "r \<in> set (matchAll (delimited ''***'' ''***'') t j) \<Longrightarrow> good t (boldItalicMatch r)"
proof -
  assume a: "r \<in> set (matchAll (delimited ''***'' ''***'') t j)"
  obtain i len g where r: "r = (i, len, g)" by (cases r)
  from matchAll_member[of i len g _ t j] a r
  have "delimited ''***'' ''***'' t i = Some (len, g)" by simp
  from delimited_result[OF this] show ?thesis
    by (simp add: good_def boldItalicMatch_def r wraps_def)
qed

lemma good_bold:
  "r \<in> set (matchAll (delimited ''**'' ''**'') t j) \<Longrightarrow> good t (boldMatch r)"
proof -
  assume a: "r \<in> set (matchAll (delimited ''**'' ''**'') t j)"
  obtain i len g where r: "r = (i, len, g)" by (cases r)
  from matchAll_member[of i len g _ t j] a r
  have "delimited ''**'' ''**'' t i = Some (len, g)" by simp
  from delimited_result[OF this] show ?thesis
    by (simp add: good_def boldMatch_def r wraps_def)
qed

lemma good_italicStar:
  "r \<in> set (matchAll italicStar t j) \<Longrightarrow> good t (italicMatch r)"
proof -
  assume a: "r \<in> set (matchAll italicStar t j)"
  obtain i len g where r: "r = (i, len, g)" by (cases r)
  from matchAll_member[of i len g _ t j] a r
  have "italicStar t i = Some (len, g)" by simp
  from italicStar_result[OF this] show ?thesis
    by (simp add: good_def italicMatch_def r wraps_def)
qed

lemma good_italicUnderscore:
  "r \<in> set (matchAll (delimited ''_'' ''_'') t j) \<Longrightarrow> good t (italicMatch r)"
proof -
  assume a: "r \<in> set (matchAll (delimited ''_'' ''_'') t j)"
  obtain i len g where r: "r = (i, len, g)" by (cases r)
  from matchAll_member[of i len g _ t j] a r
  have "delimited ''_'' ''_'' t i = Some (len, g)" by simp
  from delimited_result[OF this] show ?thesis
    by (simp add: good_def italicMatch_def r wraps_def)
qed

lemma good_code:
  "r \<in> set (matchAll (delimited ''`'' ''`'') t j) \<Longrightarrow> good t (codeMatch r)"
proof -
  assume a: "r \<in> set (matchAll (delimited ''`'' ''`'') t j)"
  obtain i len g where r: "r = (i, len, g)" by (cases r)
  from matchAll_member[of i len g _ t j] a r
  have "delimited ''`'' ''`'' t i = Some (len, g)" by simp
  from delimited_result[OF this] show ?thesis
    by (simp add: good_def codeMatch_def r wraps_def)
qed

lemma good_link:
  "r \<in> set (matchAll linkPattern t j) \<Longrightarrow> good t (linkMatch r)"
proof -
  assume a: "r \<in> set (matchAll linkPattern t j)"
  obtain i len g1 g2 where r: "r = (i, len, g1, g2)" by (cases r)
  from matchAll_member[of i len "(g1, g2)" _ t j] a r
  have "linkPattern t i = Some (len, g1, g2)" by simp
  from linkPattern_result[OF this] show ?thesis
    by (simp add: good_def linkMatch_def r wraps_def)
qed

lemma foldl_pushUncovered_good:
  "\<forall>m \<in> set acc. good t m \<Longrightarrow> \<forall>m \<in> set ms. good t m \<Longrightarrow>
   \<forall>m \<in> set (foldl pushUncovered acc ms). good t m"
proof (induction ms arbitrary: acc)
  case Nil
  then show ?case by simp
next
  case (Cons a ms)
  have "\<forall>m \<in> set (pushUncovered acc a). good t m"
    using Cons.prems by (auto simp: pushUncovered_def)
  moreover have "\<forall>m \<in> set ms. good t m" using Cons.prems by simp
  ultimately have "\<forall>m \<in> set (foldl pushUncovered (pushUncovered acc a) ms). good t m"
    by (rule Cons.IH)
  then show ?case by simp
qed

lemma collectMatches_good: "\<forall>m \<in> set (collectMatches t). good t m"
proof -
  have 1: "\<forall>m \<in> set (map boldItalicMatch (matchAll (delimited ''***'' ''***'') t 0)). good t m"
    using good_boldItalic by auto
  have 2: "\<forall>m \<in> set (map boldMatch (matchAll (delimited ''**'' ''**'') t 0)). good t m"
    using good_bold by auto
  have 3: "\<forall>m \<in> set (map italicMatch (matchAll italicStar t 0)). good t m"
    using good_italicStar by auto
  have 4: "\<forall>m \<in> set (map italicMatch (matchAll (delimited ''_'' ''_'') t 0)). good t m"
    using good_italicUnderscore by auto
  have 5: "\<forall>m \<in> set (map codeMatch (matchAll (delimited ''`'' ''`'') t 0)). good t m"
    using good_code by auto
  have 6: "\<forall>m \<in> set (map linkMatch (matchAll linkPattern t 0)). good t m"
    using good_link by auto
  show ?thesis
    unfolding collectMatches_def Let_def
    by (intro foldl_pushUncovered_good 1 2 3 4 5 6)
qed

lemma buildPieces_acc:
  "buildPieces t ms pos acc = (fst (buildPieces t ms pos []), acc @ snd (buildPieces t ms pos []))"
proof (induction ms arbitrary: pos acc)
  case Nil
  show ?case by simp
next
  case (Cons m ms)
  show ?case
  proof (cases "m_start m < pos")
    case True
    then show ?thesis using Cons.IH[of pos acc] by simp
  next
    case False
    let ?new = "(if pos < m_start m \<and> slice t pos (m_start m) \<noteq> [] then [Gap pos (m_start m)] else []) @ [Hit m]"
    have "buildPieces t (m # ms) pos acc = buildPieces t ms (m_end m) (acc @ ?new)"
      using False by (simp add: Let_def)
    moreover have "buildPieces t (m # ms) pos [] = buildPieces t ms (m_end m) ?new"
      using False by (simp add: Let_def)
    ultimately show ?thesis
      using Cons.IH[of "m_end m" "acc @ ?new"] Cons.IH[of "m_end m" ?new] by simp
  qed
qed

lemma buildLoop_render:
  "buildLoop t ms pos (map (render t) acc) =
     (fst (buildPieces t ms pos acc), map (render t) (snd (buildPieces t ms pos acc)))"
proof (induction ms arbitrary: pos acc)
  case Nil
  show ?case by simp
next
  case (Cons m ms)
  show ?case
  proof (cases "m_start m < pos")
    case True
    then show ?thesis using Cons.IH[of pos acc] by simp
  next
    case False
    let ?new = "(if pos < m_start m \<and> slice t pos (m_start m) \<noteq> [] then [Gap pos (m_start m)] else []) @ [Hit m]"
    have "buildPieces t (m # ms) pos acc = buildPieces t ms (m_end m) (acc @ ?new)"
      using False by (simp add: Let_def)
    moreover have "buildLoop t (m # ms) pos (map (render t) acc)
        = buildLoop t ms (m_end m) (map (render t) (acc @ ?new))"
      using False by (simp add: Let_def)
    ultimately show ?thesis
      using Cons.IH[of "m_end m" "acc @ ?new"] by simp
  qed
qed

lemma parse_render: "parseInlineFormatting t = map (render t) (pieces t)"
proof -
  obtain p r where pr: "buildPieces t (sort_key m_start (collectMatches t)) 0 [] = (p, r)"
    by (cases "buildPieces t (sort_key m_start (collectMatches t)) 0 []")
  have bl: "buildLoop t (sort_key m_start (collectMatches t)) 0 [] = (p, map (render t) r)"
    using buildLoop_render[of t "sort_key m_start (collectMatches t)" 0 "[]"] pr by simp
  show ?thesis
    unfolding parseInlineFormatting_def pieces_def Let_def pr bl
    by (simp add: slice_def)
qed

lemma slice_append: "a \<le> b \<Longrightarrow> b \<le> c \<Longrightarrow> slice t a b @ slice t b c = slice t a c"
proof -
  assume ab: "a \<le> b" and bc: "b \<le> c"
  have "take (c - a) (drop a t) = take ((b - a) + (c - b)) (drop a t)" using ab bc by simp
  also have "\<dots> = take (b - a) (drop a t) @ take (c - b) (drop (b - a) (drop a t))"
    by (rule take_add)
  also have "drop (b - a) (drop a t) = drop b t" using ab by simp
  finally show ?thesis by (simp add: slice_def)
qed

lemma slice_nonempty: "a < b \<Longrightarrow> b \<le> length t \<Longrightarrow> slice t a b \<noteq> []"
  by (simp add: slice_def)

lemma disjoint_increasing:
  fixes f :: "'a \<Rightarrow> nat \<times> nat"
  assumes "sorted_wrt (\<lambda>x y. snd (f x) \<le> fst (f y)) xs" and "\<forall>x \<in> set xs. fst (f x) < snd (f x)"
  shows "sorted_wrt (\<lambda>x y. fst (f x) < fst (f y)) xs"
  using assms
proof (induction xs)
  case Nil
  show ?case by simp
next
  case (Cons a xs)
  have "\<forall>y \<in> set xs. fst (f a) < fst (f y)"
  proof
    fix y assume "y \<in> set xs"
    with Cons.prems have "snd (f a) \<le> fst (f y)" "fst (f a) < snd (f a)" by auto
    then show "fst (f a) < fst (f y)" by simp
  qed
  moreover have "sorted_wrt (\<lambda>x y. fst (f x) < fst (f y)) xs"
    using Cons by simp
  ultimately show ?case by simp
qed

lemma buildPieces_props:
  assumes "\<forall>m \<in> set ms. good t m" and "pos \<le> length t" and "buildPieces t ms pos [] = (p, r)"
  shows "pos \<le> p \<and> p \<le> length t \<and> concat (map (sourceOf t) r) = slice t pos p
    \<and> (\<forall>x \<in> set r. pos \<le> fst (interval x) \<and> fst (interval x) < snd (interval x)
          \<and> snd (interval x) \<le> p \<and> wrapped t x)
    \<and> sorted_wrt (\<lambda>x y. snd (interval x) \<le> fst (interval y)) r"
  using assms
proof (induction ms arbitrary: pos p r)
  case Nil
  then show ?case by (simp add: slice_def)
next
  case (Cons m ms)
  have gm: "good t m" and gms: "\<forall>m \<in> set ms. good t m" using Cons.prems(1) by auto
  show ?case
  proof (cases "m_start m < pos")
    case True
    then have "buildPieces t ms pos [] = (p, r)" using Cons.prems(3) by simp
    from Cons.IH[OF gms Cons.prems(2) this] show ?thesis .
  next
    case False
    let ?gap = "if pos < m_start m then [Gap pos (m_start m)] else []"
    let ?new = "?gap @ [Hit m]"
    obtain p' r' where rec: "buildPieces t ms (m_end m) [] = (p', r')"
      by (cases "buildPieces t ms (m_end m) []")
    have se: "m_start m < m_end m" "m_end m \<le> length t"
      and wr: "wraps (slice t (m_start m) (m_end m)) m"
      using gm by (auto simp: good_def)
    have ne: "pos < m_start m \<Longrightarrow> slice t pos (m_start m) \<noteq> []"
      using se by (intro slice_nonempty) auto
    have "buildPieces t (m # ms) pos [] = buildPieces t ms (m_end m) ?new"
      using False ne by (auto simp: Let_def)
    also have "\<dots> = (p', ?new @ r')"
      using buildPieces_acc[of t ms "m_end m" ?new] rec by simp
    finally have pr: "p = p'" "r = ?new @ r'" using Cons.prems(3) by auto
    from Cons.IH[OF gms se(2) rec]
    have ih: "m_end m \<le> p'" "p' \<le> length t"
      "concat (map (sourceOf t) r') = slice t (m_end m) p'"
      "\<forall>x \<in> set r'. m_end m \<le> fst (interval x) \<and> fst (interval x) < snd (interval x)
          \<and> snd (interval x) \<le> p' \<and> wrapped t x"
      "sorted_wrt (\<lambda>x y. snd (interval x) \<le> fst (interval y)) r'"
      by auto
    have le: "pos \<le> m_start m" using False by simp
    have c1: "concat (map (sourceOf t) ?gap) = slice t pos (m_start m)"
      using le by (auto simp: sourceOf_def slice_def)
    have "concat (map (sourceOf t) r) =
        slice t pos (m_start m) @ slice t (m_start m) (m_end m) @ slice t (m_end m) p'"
      unfolding pr(2) using c1 ih(3) by (simp add: sourceOf_def)
    also have "\<dots> = slice t pos p'"
      using slice_append[of "m_start m" "m_end m" p' t] slice_append[of pos "m_start m" p' t]
        le se(1) ih(1) by simp
    finally have cc: "concat (map (sourceOf t) r) = slice t pos p" using pr(1) by simp
    have el: "\<forall>x \<in> set r. pos \<le> fst (interval x) \<and> fst (interval x) < snd (interval x)
          \<and> snd (interval x) \<le> p \<and> wrapped t x"
      unfolding pr using ih(1,4) se(1) le wr by auto
    have so: "sorted_wrt (\<lambda>x y. snd (interval x) \<le> fst (interval y)) r"
      unfolding pr using ih(4,5) se(1) by (auto simp: sorted_wrt_append)
    show ?thesis using cc el so ih(1,2) se(1) le pr(1) by simp
  qed
qed

text \<open>The pieces of a text: what is proved of the loop, extended by the two last steps.\<close>

lemma pieces_props:
  "concat (map (sourceOf t) (pieces t)) = t
    \<and> (\<forall>x \<in> set (pieces t). wrapped t x \<and> snd (interval x) \<le> length t
         \<and> (t \<noteq> [] \<longrightarrow> fst (interval x) < snd (interval x)))
    \<and> sorted_wrt (\<lambda>x y. snd (interval x) \<le> fst (interval y)) (pieces t)
    \<and> sorted_wrt (\<lambda>x y. fst (interval x) < fst (interval y)) (pieces t)"
proof -
  let ?ms = "sort_key m_start (collectMatches t)"
  obtain p r where pr: "buildPieces t ?ms 0 [] = (p, r)"
    by (cases "buildPieces t ?ms 0 []")
  have g: "\<forall>m \<in> set ?ms. good t m" using collectMatches_good[of t] by simp
  from buildPieces_props[OF g _ pr]
  have b: "p \<le> length t" "concat (map (sourceOf t) r) = slice t 0 p"
    "\<forall>x \<in> set r. fst (interval x) < snd (interval x) \<and> snd (interval x) \<le> p \<and> wrapped t x"
    "sorted_wrt (\<lambda>x y. snd (interval x) \<le> fst (interval y)) r"
    by auto
  let ?r1 = "if p < length t then r @ [Gap p (length t)] else r"
  have ps: "pieces t = (if length ?r1 = 0 then ?r1 @ [Gap 0 (length t)] else ?r1)"
    unfolding pieces_def Let_def pr by simp
  show ?thesis
  proof (cases "p < length t")
    case True
    then have eq: "pieces t = r @ [Gap p (length t)]" using ps by simp
    have "concat (map (sourceOf t) (pieces t)) = slice t 0 p @ slice t p (length t)"
      unfolding eq using b(2) by (simp add: sourceOf_def)
    also have "\<dots> = slice t 0 (length t)" using True by (intro slice_append) auto
    finally have c: "concat (map (sourceOf t) (pieces t)) = t" by (simp add: slice_def)
    have e: "\<forall>x \<in> set (pieces t). wrapped t x \<and> snd (interval x) \<le> length t
         \<and> fst (interval x) < snd (interval x)"
      unfolding eq using b(1,3) True by auto
    have s: "sorted_wrt (\<lambda>x y. snd (interval x) \<le> fst (interval y)) (pieces t)"
      unfolding eq using b(3,4) by (auto simp: sorted_wrt_append)
    have "sorted_wrt (\<lambda>x y. fst (interval x) < fst (interval y)) (pieces t)"
      using disjoint_increasing[OF s] e by simp
    then show ?thesis using c e s by simp
  next
    case False
    then have pl: "p = length t" using b(1) by simp
    show ?thesis
    proof (cases "r = []")
      case True
      then have "slice t 0 p = []" using b(2) by simp
      then have t0: "t = []" using pl by (simp add: slice_def)
      have eq: "pieces t = [Gap 0 0]" using ps True False t0 by simp
      show ?thesis unfolding eq using t0 by (simp add: sourceOf_def slice_def)
    next
      case ne: False
      then have eq: "pieces t = r" using ps False by simp
      have c: "concat (map (sourceOf t) (pieces t)) = t"
        unfolding eq using b(2) pl by (simp add: slice_def)
      have e: "\<forall>x \<in> set (pieces t). wrapped t x \<and> snd (interval x) \<le> length t
         \<and> fst (interval x) < snd (interval x)"
        unfolding eq using b(1,3) by auto
      have s: "sorted_wrt (\<lambda>x y. snd (interval x) \<le> fst (interval y)) (pieces t)"
        unfolding eq using b(4) by simp
      have "sorted_wrt (\<lambda>x y. fst (interval x) < fst (interval y)) (pieces t)"
        using disjoint_increasing[OF s] e by simp
      then show ?thesis using c e s by simp
    qed
  qed
qed

section \<open>Properties of the language tag normalizer\<close>

lemma plain_text_valid: "''plain text'' \<in> set validLanguages"
  by (simp add: validLanguages_def)

lemma constructor_not_valid: "''constructor'' \<notin> set validLanguages"
  by (simp add: validLanguages_def)

lemma proto_not_valid: "''__proto__'' \<notin> set validLanguages"
  by (simp add: validLanguages_def)

lemma alias_valid: "map_of aliasTable k = Some v \<Longrightarrow> v \<in> set validLanguages"
  by (auto simp: aliasTable_def validLanguages_def split: if_splits)

lemma mapLanguage_valid: "mapLanguage lang \<in> set validLanguages"
  by (auto simp: mapLanguage_def Let_def plain_text_valid split: lookup.splits)

lemma mapLanguage_substitute:
  "mapLanguage lang =
     (if aliasSubstitute (toLowerCase lang) \<in> set validLanguages
      then aliasSubstitute (toLowerCase lang) else ''plain text'')"
proof (cases "map_of aliasTable (toLowerCase lang)")
  case None
  then show ?thesis
    using constructor_not_valid proto_not_valid
    by (auto simp: mapLanguage_def Let_def mapping_def aliasSubstitute_def)
next
  case (Some v)
  then show ?thesis
    using alias_valid[OF Some] by (simp add: mapLanguage_def Let_def mapping_def aliasSubstitute_def)
qed

section \<open>Properties of the block tokenizer\<close>

lemma hashStuck_facts:
  assumes "hashStuck l"
  shows "trim l \<noteq> []" "\<not> startsWith ''```'' l" "\<not> isBulletLine l" "\<not> test numberedPrefix l"
    "\<not> startsWith ''> '' l" "\<not> isParagraphLine l"
proof -
  from assms obtain cs where l: "l = CHR ''#'' # cs"
    by (cases l) (auto simp: hashStuck_def startsWith_def)
  show "trim l \<noteq> []" unfolding l by (simp add: trim_def isSpace_def)
  show "\<not> startsWith ''```'' l" unfolding l by (simp add: startsWith_def)
  show "\<not> isBulletLine l" unfolding l by (simp add: isBulletLine_def split: list.splits)
  show "\<not> test numberedPrefix l" unfolding l
    by (simp add: test_def numberedPrefix_def isDigit_def Let_def)
  show "\<not> startsWith ''> '' l" unfolding l by (simp add: startsWith_def)
  show "\<not> isParagraphLine l" unfolding l by (simp add: isParagraphLine_def startsWith_def)
qed

lemma hash_line_never_returns:
  assumes "blocksLoop ls blocks = Some y"
  shows "\<not> (\<exists>l rest. ls = l # rest \<and> hashStuck l)"
proof (rule blocksLoop.raw_induct[where P = "\<lambda>ls blocks y. \<not> (\<exists>l rest. ls = l # rest \<and> hashStuck l)",
      OF _ assms], goal_cases)
  case (1 loop ls blocks y)
  note IH = "1"(1) and step = "1"(2)
  show ?case
  proof
    assume "\<exists>l rest. ls = l # rest \<and> hashStuck l"
    then obtain l rest where ls: "ls = l # rest" and st: "hashStuck l" by auto
    note f = hashStuck_facts[OF st]
    have h: "\<not> startsWith ''# '' l" "\<not> startsWith ''## '' l" "\<not> startsWith ''### '' l"
      using st by (auto simp: hashStuck_def)
    have "loop ls blocks = Some y"
      using step unfolding ls using f h by (simp add: Let_def)
    from IH[OF this] ls st show False by auto
  qed
qed

lemma hash_line_diverges: "hashStuck l \<Longrightarrow> blocksLoop (l # rest) blocks = None"
  using hash_line_never_returns[of "l # rest" blocks] by (cases "blocksLoop (l # rest) blocks") auto


lemma trim_nonspace: "\<not> isSpace c \<Longrightarrow> trim (c # cs) \<noteq> []"
  by (simp add: trim_def)

lemma takeWhile_until:
  assumes "list_all P body" and "\<not> P stop"
  shows "takeWhile P (body @ stop # rest) = body" and "dropWhile P (body @ stop # rest) = stop # rest"
  using assms by (induction body) auto

lemma takeWhile_all:
  assumes "list_all P body"
  shows "takeWhile P body = body" and "dropWhile P body = []"
  using assms by (induction body) auto

lemma mapLanguage_plain: "mapLanguage ''plain text'' = ''plain text''"
  by code_simp

lemma fence_line:
  assumes "startsWith ''```'' fence"
  shows "blocksLoop (fence # rest) blocks =
     blocksLoop (drop 1 (dropWhile (\<lambda>l. \<not> startsWith ''```'' l) rest))
       (blocks @ [Code [plainItem (join [NL] (takeWhile (\<lambda>l. \<not> startsWith ''```'' l) rest))]
          (mapLanguage (if trim (drop 3 fence) = [] then ''plain text'' else trim (drop 3 fence)))])"
proof -
  from assms obtain cs where f: "fence = CHR 0x60 # cs"
    by (cases fence) (auto simp: startsWith_def)
  have "trim fence \<noteq> []" unfolding f by (rule trim_nonspace) (simp add: isSpace_def)
  then show ?thesis
    using assms by (subst blocksLoop.simps) (simp add: Let_def)
qed

lemma quote_not_bullet: "test nestedQuotePrefix x \<Longrightarrow> \<not> test nestedBulletPrefix x"
  by (auto simp: test_def nestedQuotePrefix_def nestedBulletPrefix_def Let_def startsWith_def
      isBulletLine_def split: if_splits list.splits)

lemma takeWhile_prefix_stop:
  assumes "list_all P xs" and "case ys of [] \<Rightarrow> True | y # _ \<Rightarrow> \<not> P y"
  shows "takeWhile P (xs @ ys) = xs" and "dropWhile P (xs @ ys) = ys"
  using assms by (induction xs) (auto split: list.splits)

lemma bulletRun_item:
  assumes "isBulletLine l"
    and "list_all (test nestedBulletPrefix) nb"
    and "list_all (test nestedQuotePrefix) nq"
    and "case rest of [] \<Rightarrow> True
         | r # _ \<Rightarrow> \<not> test nestedQuotePrefix r \<and> (nq = [] \<longrightarrow> \<not> test nestedBulletPrefix r)"
  shows "bulletRun (l # nb @ nq @ rest) =
     (BulletedListItem (parseInlineFormatting (drop 2 l))
        (if nb = [] \<and> nq = [] then None
         else Some (map (\<lambda>s. BulletedListItem (parseInlineFormatting (strip nestedBulletPrefix s)) None) nb
                    @ (if nq = [] then []
                       else [Quote (parseInlineFormatting (join [NL] (map (strip nestedQuotePrefix) nq)))])))
      # fst (bulletRun rest), snd (bulletRun rest))"
proof -
  have s1: "case nq @ rest of [] \<Rightarrow> True | y # _ \<Rightarrow> \<not> test nestedBulletPrefix y"
    using assms(3,4) quote_not_bullet by (cases nq) (auto split: list.splits)
  have t1: "takeWhile (test nestedBulletPrefix) (nb @ nq @ rest) = nb"
    and d1: "dropWhile (test nestedBulletPrefix) (nb @ nq @ rest) = nq @ rest"
    using takeWhile_prefix_stop[OF assms(2) s1] by auto
  have s2: "case rest of [] \<Rightarrow> True | y # _ \<Rightarrow> \<not> test nestedQuotePrefix y"
    using assms(4) by (auto split: list.splits)
  have t2: "takeWhile (test nestedQuotePrefix) (nq @ rest) = nq"
    and d2: "dropWhile (test nestedQuotePrefix) (nq @ rest) = rest"
    using takeWhile_prefix_stop[OF assms(3) s2] by auto
  show ?thesis
    using assms(1)
    by (subst bulletRun.simps) (simp add: Let_def t1 d1 t2 d2 split: prod.splits)
qed

lemma bullet_line:
  assumes "isBulletLine l"
  shows "blocksLoop (l # ls) blocks =
     blocksLoop (snd (bulletRun (l # ls))) (blocks @ fst (bulletRun (l # ls)))"
proof -
  from assms obtain c d cs where l: "l = c # d # cs" and c: "c = CHR ''-'' \<or> c = CHR ''*''"
    by (auto simp: isBulletLine_def split: list.splits)
  have "trim l \<noteq> []" unfolding l using c by (intro trim_nonspace) (auto simp: isSpace_def)
  moreover have "\<not> startsWith ''```'' l" "\<not> startsWith ''# '' l" "\<not> startsWith ''## '' l"
    "\<not> startsWith ''### '' l"
    unfolding l using c by (auto simp: startsWith_def)
  ultimately show ?thesis
    using assms by (subst blocksLoop.simps) (simp add: Let_def split: prod.splits)
qed


text \<open>
  Away from the lines that start with \<open>#\<close> and are no heading, the main loop returns:
  every round takes one line at least.
\<close>

lemma bulletRun_rest:
  "\<exists>pre. xs = pre @ snd (bulletRun xs) \<and> (case xs of [] \<Rightarrow> True | l # _ \<Rightarrow> isBulletLine l \<longrightarrow> pre \<noteq> [])"
proof (induction xs rule: bulletRun.induct)
  case 1
  show ?case by (simp add: bulletRun.simps)
next
  case (2 l ls)
  show ?case
  proof (cases "isBulletLine l")
    case False
    then show ?thesis by (simp add: bulletRun.simps)
  next
    case True
    let ?ls1 = "dropWhile (test nestedBulletPrefix) ls"
    let ?ls2 = "dropWhile (test nestedQuotePrefix) ?ls1"
    from "2.IH"[OF True refl refl refl refl refl refl refl]
    obtain pre where pre: "?ls2 = pre @ snd (bulletRun ?ls2)" by blast
    have s: "snd (bulletRun (l # ls)) = snd (bulletRun ?ls2)"
      using True by (subst bulletRun.simps) (simp add: Let_def split: prod.splits)
    have "ls = takeWhile (test nestedBulletPrefix) ls @ takeWhile (test nestedQuotePrefix) ?ls1 @ ?ls2"
      by simp
    then have "l # ls = (l # takeWhile (test nestedBulletPrefix) ls
        @ takeWhile (test nestedQuotePrefix) ?ls1 @ pre) @ snd (bulletRun (l # ls))"
      using pre s by simp
    then show ?thesis by (intro exI[of _ "l # takeWhile (test nestedBulletPrefix) ls
        @ takeWhile (test nestedQuotePrefix) ?ls1 @ pre"]) simp
  qed
qed

lemma bulletRun_shorter:
  assumes "isBulletLine l"
  shows "length (snd (bulletRun (l # ls))) < length (l # ls)"
    and "set (snd (bulletRun (l # ls))) \<subseteq> set (l # ls)"
proof -
  from bulletRun_rest[of "l # ls"] assms
  obtain pre where pre: "l # ls = pre @ snd (bulletRun (l # ls))" "pre \<noteq> []" by auto
  have "length (l # ls) = length pre + length (snd (bulletRun (l # ls)))"
    by (subst pre(1)) simp
  then show "length (snd (bulletRun (l # ls))) < length (l # ls)" using pre(2) by simp
  have "set (l # ls) = set pre \<union> set (snd (bulletRun (l # ls)))"
    by (subst pre(1)) simp
  then show "set (snd (bulletRun (l # ls))) \<subseteq> set (l # ls)" by blast
qed

lemma dropWhile_shorter:
  assumes "P l"
  shows "length (dropWhile P (l # ls)) < length (l # ls)"
    and "set (dropWhile P (l # ls)) \<subseteq> set (l # ls)"
  using assms length_dropWhile_le[of P ls] set_dropWhileD[of _ P ls] by auto

lemma blocksLoop_returns:
  assumes "\<forall>l \<in> set ls. \<not> hashStuck l"
  shows "\<exists>bs. blocksLoop ls blocks = Some bs"
  using assms
proof (induction ls arbitrary: blocks rule: length_induct)
  case (1 ls)
  show ?case
  proof (cases ls)
    case Nil
    then show ?thesis by (subst blocksLoop.simps) simp
  next
    case (Cons line rest)
    have go: "\<exists>bs. blocksLoop ys b = Some bs"
      if "length ys < length (line # rest)" and "set ys \<subseteq> set (line # rest)" for ys b
      using "1.IH" "1.prems" that unfolding Cons by blast
    have rest: "\<exists>bs. blocksLoop rest b = Some bs" for b
      using go[of rest b] by auto
    show ?thesis
    proof (cases "trim line = []")
      case True
      then show ?thesis unfolding Cons using rest by (subst blocksLoop.simps) simp
    next
      case nonblank: False
      show ?thesis
      proof (cases "startsWith ''```'' line")
        case True
        let ?ys = "drop 1 (dropWhile (\<lambda>l. \<not> startsWith ''```'' l) rest)"
        have "length ?ys < length ls"
          using length_dropWhile_le[of "\<lambda>l. \<not> startsWith ''```'' l" rest] Cons by simp
        moreover have "set ?ys \<subseteq> set ls"
          using set_dropWhileD[of _ "\<lambda>l. \<not> startsWith ''```'' l" rest] Cons
          by (auto dest: in_set_dropD)
        ultimately show ?thesis
          unfolding Cons fence_line[OF True] using go by blast
      next
        case nofence: False
        show ?thesis
        proof (cases "startsWith ''# '' line \<or> startsWith ''## '' line \<or> startsWith ''### '' line")
          case True
          then show ?thesis
            unfolding Cons using nonblank nofence rest
            by (subst blocksLoop.simps) auto
        next
          case nohead: False
          have nohash: "\<not> startsWith ''#'' line"
            using nohead "1.prems" Cons by (auto simp: hashStuck_def)
          show ?thesis
          proof (cases "isBulletLine line")
            case True
            show ?thesis
              unfolding Cons bullet_line[OF True]
              using go bulletRun_shorter[OF True, of rest] Cons by blast
          next
            case nobullet: False
            show ?thesis
            proof (cases "test numberedPrefix line")
              case True
              have "\<exists>bs. blocksLoop (dropWhile (test numberedPrefix) (line # rest)) b = Some bs" for b
                using go dropWhile_shorter[of "test numberedPrefix", OF True, of rest] Cons by blast
              then show ?thesis
                unfolding Cons using nonblank nofence nohead nobullet True
                by (subst blocksLoop.simps) (simp add: Let_def)
            next
              case nonum: False
              show ?thesis
              proof (cases "startsWith ''> '' line")
                case True
                have "\<exists>bs. blocksLoop (dropWhile (startsWith ''> '') (line # rest)) b = Some bs" for b
                  using go dropWhile_shorter[of "startsWith ''> ''", OF True, of rest] Cons by blast
                then show ?thesis
                  unfolding Cons using nonblank nofence nohead nobullet nonum True
                  by (subst blocksLoop.simps) (simp add: Let_def)
              next
                case noquote: False
                have para: "isParagraphLine line"
                  using nonblank nofence nohash nobullet nonum noquote
                  by (simp add: isParagraphLine_def)
                have "\<exists>bs. blocksLoop (dropWhile isParagraphLine (line # rest)) b = Some bs" for b
                  using go dropWhile_shorter[of isParagraphLine, OF para, of rest] Cons by blast
                then show ?thesis
                  unfolding Cons using nonblank nofence nohead nobullet nonum noquote para
                  by (subst blocksLoop.simps) (simp add: Let_def)
              qed
            qed
          qed
        qed
      qed
    qed
  qed
qed

lemma markdownToBlocks_returns:
  "\<forall>l \<in> set (split NL markdown). \<not> hashStuck l \<Longrightarrow> \<exists>bs. markdownToBlocks markdown = Some bs"
  unfolding markdownToBlocks_def by (rule blocksLoop_returns)

section \<open>Properties of the HTML normalizer\<close>

lemma padRow_replicate: "padRow m row = row @ replicate (m - length row) []"
proof (induction m row rule: padRow.induct)
  case (1 maxCols row)
  show ?case
  proof (cases "length row < maxCols")
    case True
    then have "maxCols - length row = Suc (maxCols - Suc (length row))" by simp
    then show ?thesis
      using True "1.IH"[OF True] by (subst padRow.simps) (simp add: replicate_app_Cons_same)
  next
    case False
    then show ?thesis by (subst padRow.simps) simp
  qed
qed

lemma collectRows_acc:
  "collectRows allCells rows m =
     (rows @ survivingRows allCells, fold max (map length (survivingRows allCells)) m)"
proof (induction allCells arbitrary: rows m)
  case Nil
  show ?case by (simp add: survivingRows_def)
next
  case (Cons cells rest)
  show ?case
  proof (cases "cells = []")
    case True
    then show ?thesis using Cons.IH[of rows m] by (simp add: survivingRows_def)
  next
    case False
    then show ?thesis
      using Cons.IH[of "rows @ [cells]" "max m (length cells)"]
      by (simp add: survivingRows_def max.commute)
  qed
qed

lemma buildTable_spec: "buildTable allCells = tableMarkdown (normalizedRows allCells)"
proof -
  have "maxColumns allCells = fold max (map length (survivingRows allCells)) 0"
    unfolding maxColumns_def by (rule Max.set_eq_fold)
  then have c: "collectRows allCells [] 0 = (survivingRows allCells, maxColumns allCells)"
    by (simp add: collectRows_acc)
  have p: "map (padRow (maxColumns allCells)) (survivingRows allCells) = normalizedRows allCells"
    by (simp add: normalizedRows_def padRow_replicate)
  show ?thesis
    unfolding buildTable_def c tableMarkdown_def
    by (simp add: p map_replicate_const split: list.splits)
qed

lemma processTable_cells: "processTable el = buildTable (tableCells el)"
  by (cases el) (simp_all add: processTable.simps tableCells_def querySelectorAll_def buildTable_def tableLine_def)


lemma length_le_maxColumns: "row \<in> set (survivingRows allCells) \<Longrightarrow> length row \<le> maxColumns allCells"
  unfolding maxColumns_def by (intro Max_ge) auto

lemma normalizedRows_length: "list_all (\<lambda>row. length row = maxColumns allCells) (normalizedRows allCells)"
  unfolding normalizedRows_def list_all_iff using length_le_maxColumns[of _ allCells] by auto

lemma maxColumns_attained:
  "survivingRows allCells \<noteq> [] \<Longrightarrow> maxColumns allCells \<in> length ` set (survivingRows allCells)"
proof -
  assume ne: "survivingRows allCells \<noteq> []"
  let ?S = "set (map length (survivingRows allCells))"
  have "Max (insert 0 ?S) = max 0 (Max ?S)" using ne by (intro Max_insert) auto
  moreover have "Max ?S \<in> ?S" using ne by (intro Max_in) auto
  ultimately show ?thesis by (simp add: maxColumns_def)
qed

lemma pipesEscaped_replacePipes_aux:
  "pipesEscaped prev (replacePipes s)"
  by (induction s arbitrary: prev) (auto simp: replacePipes_def BSLASH_def)

lemma tableCells_escaped:
  "list_all (list_all (pipesEscaped None)) (tableCells el)"
  unfolding tableCells_def list_all_iff by (auto intro: pipesEscaped_replacePipes_aux)

lemma trim_fixed: "\<not> isSpace c \<Longrightarrow> \<not> isSpace d \<Longrightarrow> trim (c # xs @ [d]) = c # xs @ [d]"
  by (simp add: trim_def)

lemma processNode_parent_tag:
  "toLowerCase t \<noteq> ''pre'' \<Longrightarrow> toLowerCase t' \<noteq> ''pre'' \<Longrightarrow>
   processNode (Element t as cs) = processNode (Element t' as' cs)"
  by (simp add: processNode.simps cong: node.case_cong)

lemma processNode_single:
  "processNode (Element t as [Element t' as' cs]) =
     processElement (toLowerCase t = ''pre'') (Element t' as' cs)"
  by (simp add: processNode.simps)

lemma processNode_text: "processNode (Element t as [TextNode x]) = x"
  by (simp add: processNode.simps)

lemma processElement_bold:
  "toLowerCase b = ''strong'' \<or> toLowerCase b = ''b'' \<Longrightarrow>
   processElement p (Element b as cs) = ''**'' @ processNode (Element b as cs) @ ''**''"
  by (auto simp: processElement.simps Let_def)

lemma processElement_italic:
  "toLowerCase i = ''em'' \<or> toLowerCase i = ''i'' \<Longrightarrow>
   processElement p (Element i as cs) = ''*'' @ processNode (Element i as cs) @ ''*''"
  by (auto simp: processElement.simps Let_def)


section \<open>The claims\<close>

text \<open>
  C6. For every input, \<open>mapLanguage\<close> lower-cases it, substitutes it through the alias
  table and returns the result if it is in the fixed vocabulary of canonical tags, and
  the sentinel \<open>plain text\<close> otherwise; the result is always in the vocabulary.
\<close>

theorem mapLanguage_closed_vocabulary:
  "mapLanguage lang =
     (if aliasSubstitute (toLowerCase lang) \<in> set validLanguages
      then aliasSubstitute (toLowerCase lang) else ''plain text'')
   \<and> mapLanguage lang \<in> set validLanguages"
  using mapLanguage_substitute[of lang] mapLanguage_valid[of lang] by simp

theorem mapLanguage_closed_vocabulary_witness:
  "mapLanguage ''JS'' = ''javascript'' \<and> mapLanguage ''JS'' \<in> set validLanguages"
proof -
  have a: "aliasSubstitute (toLowerCase ''JS'') = ''javascript''" by code_simp
  have b: "''javascript'' \<in> set validLanguages" by code_simp
  show ?thesis using mapLanguage_closed_vocabulary[of "''JS''"] a b by simp
qed

text \<open>
  C2. \<open>markdownToBlocks\<close> is claimed to return for every input. It does not: on a
  line that starts with \<open>#\<close> and is no heading, no branch of the main loop moves the
  index, and the call never returns.
\<close>

theorem markdownToBlocks_hashtag_never_returns: "markdownToBlocks ''#tag'' = None"
proof -
  have "hashStuck ''#tag''" by (simp add: hashStuck_def startsWith_def)
  then show ?thesis by (simp add: markdownToBlocks_def NL_def hash_line_diverges)
qed

text \<open>
  C3. A line of four hashes or more is claimed to be consumed as a paragraph. No
  heading block is produced for it, but no paragraph either: the paragraph loop refuses
  every line that starts with \<open>#\<close>, and the call never returns.
\<close>

theorem markdownToBlocks_four_hashes_never_returns: "markdownToBlocks ''#### text'' = None"
proof -
  have "hashStuck ''#### text''" by (simp add: hashStuck_def startsWith_def)
  then show ?thesis by (simp add: markdownToBlocks_def NL_def hash_line_diverges)
qed

text \<open>
  C10. The spans of the inline segmentor come from source intervals that are pairwise
  disjoint and in strictly increasing order of their start; a candidate that starts
  before the end of the span pushed before it is dropped whole, the loop going on with
  the same position and the same result.
\<close>

theorem inline_spans_disjoint_increasing:
  "parseInlineFormatting t = map (render t) (pieces t)
   \<and> sorted_wrt (\<lambda>x y. snd (interval x) \<le> fst (interval y)) (pieces t)
   \<and> sorted_wrt (\<lambda>x y. fst (interval x) < fst (interval y)) (pieces t)
   \<and> (\<forall>m ms pos result. m_start m < pos \<longrightarrow>
         buildLoop t (m # ms) pos result = buildLoop t ms pos result)"
  using parse_render[of t] pieces_props[of t] by simp

theorem inline_spans_disjoint_increasing_witness:
  "map content (parseInlineFormatting ''**a `b** c`'') = [''a `b'', '' c`'']
   \<and> map interval (pieces ''**a `b** c`'') = [(0, 8), (8, 11)]
   \<and> map (\<lambda>m. (m_start m, m_end m)) (sort_key m_start (collectMatches ''**a `b** c`''))
       = [(0, 8), (4, 11)]
   \<and> buildLoop ''**a `b** c`'' [codeMatch (4, 7, ''b** c'')] 8 [] = (8, [])"
proof -
  have h: "m_start (codeMatch (4, 7, ''b** c'')) < 8" by (simp add: codeMatch_def)
  have "buildLoop ''**a `b** c`'' [codeMatch (4, 7, ''b** c'')] 8 []
      = buildLoop ''**a `b** c`'' [] 8 []"
    using inline_spans_disjoint_increasing[of "''**a `b** c`''"] h by blast
  then have 4: "buildLoop ''**a `b** c`'' [codeMatch (4, 7, ''b** c'')] 8 [] = (8, [])"
    by simp
  have 1: "map content (parseInlineFormatting ''**a `b** c`'') = [''a `b'', '' c`'']"
    by code_simp
  have 2: "map interval (pieces ''**a `b** c`'') = [(0, 8), (8, 11)]"
    by code_simp
  have 3: "map (\<lambda>m. (m_start m, m_end m)) (sort_key m_start (collectMatches ''**a `b** c`''))
       = [(0, 8), (4, 11)]"
    by code_simp
  show ?thesis using 1 2 3 4 by simp
qed

text \<open>
  C1. The contents of the spans of a block are claimed to concatenate to the text the
  block was segmented from. They do not: the delimiters of a formatted span are left
  out of its content.
\<close>

theorem span_contents_drop_markers:
  "markdownToBlocks ''This is **bold** text''
     = Some [Paragraph (parseInlineFormatting ''This is **bold** text'')]
   \<and> concat (map content (parseInlineFormatting ''This is **bold** text'')) = ''This is bold text''
   \<and> concat (map content (parseInlineFormatting ''This is **bold** text''))
       \<noteq> ''This is **bold** text''"
  by code_simp

text \<open>
  C1, amended. The spans are, in order, the renderings of pieces whose source slices
  concatenate to the text, nothing dropped and nothing twice. A plain span has its
  slice as content; a formatted span has the content that its slice wraps in the
  delimiters of its pattern (and, for a link, the URL that follows).
\<close>

theorem span_sources_reconstruct_text:
  "parseInlineFormatting t = map (render t) (pieces t)
   \<and> concat (map (sourceOf t) (pieces t)) = t
   \<and> list_all (wrapped t) (pieces t)"
  using parse_render[of t] pieces_props[of t] by (simp add: list_all_iff)

theorem span_sources_reconstruct_text_witness:
  "map content (parseInlineFormatting ''This is **bold** text'') = [''This is '', ''bold'', '' text'']
   \<and> map (sourceOf ''This is **bold** text'') (pieces ''This is **bold** text'')
       = [''This is '', ''**bold**'', '' text'']
   \<and> list_all (wrapped ''This is **bold** text'') (pieces ''This is **bold** text'')"
proof -
  have 1: "map content (parseInlineFormatting ''This is **bold** text'')
      = [''This is '', ''bold'', '' text'']"
    by code_simp
  have 2: "map (sourceOf ''This is **bold** text'') (pieces ''This is **bold** text'')
       = [''This is '', ''**bold**'', '' text'']"
    by code_simp
  show ?thesis using span_sources_reconstruct_text[of "''This is **bold** text''"] 1 2 by simp
qed

text \<open>
  C8. At a line that begins with three backticks the lines that follow are taken as
  they are, up to a line that begins with three backticks, which is consumed too, or
  to the end of the input. Either way the result is one code block with one plain span,
  the lines joined by newlines; an empty language token is \<open>plain text\<close>. A fence that
  is never closed gives a result, not an error.
\<close>

theorem code_fence_consumes_verbatim:
  assumes "startsWith ''```'' fence" and "list_all (\<lambda>l. \<not> startsWith ''```'' l) body"
  shows "(startsWith ''```'' closer \<longrightarrow>
      blocksLoop (fence # body @ closer # rest) blocks =
        blocksLoop rest (blocks @ [Code [plainItem (join [NL] body)]
          (mapLanguage (if trim (drop 3 fence) = [] then ''plain text'' else trim (drop 3 fence)))]))
    \<and> blocksLoop (fence # body) blocks =
        Some (blocks @ [Code [plainItem (join [NL] body)]
          (mapLanguage (if trim (drop 3 fence) = [] then ''plain text'' else trim (drop 3 fence)))])
    \<and> (trim (drop 3 fence) = [] \<longrightarrow>
        mapLanguage (if trim (drop 3 fence) = [] then ''plain text'' else trim (drop 3 fence))
          = ''plain text'')"
proof (intro conjI impI)
  assume c: "startsWith ''```'' closer"
  then have nc: "\<not> (\<lambda>l. \<not> startsWith ''```'' l) closer" by simp
  show "blocksLoop (fence # body @ closer # rest) blocks =
        blocksLoop rest (blocks @ [Code [plainItem (join [NL] body)]
          (mapLanguage (if trim (drop 3 fence) = [] then ''plain text'' else trim (drop 3 fence)))])"
    unfolding fence_line[OF assms(1)] takeWhile_until[OF assms(2) nc] by simp
next
  show "blocksLoop (fence # body) blocks =
        Some (blocks @ [Code [plainItem (join [NL] body)]
          (mapLanguage (if trim (drop 3 fence) = [] then ''plain text'' else trim (drop 3 fence)))])"
    unfolding fence_line[OF assms(1)] takeWhile_all[OF assms(2)]
    by (subst blocksLoop.simps) simp
next
  assume "trim (drop 3 fence) = []"
  then show "mapLanguage (if trim (drop 3 fence) = [] then ''plain text'' else trim (drop 3 fence))
          = ''plain text''"
    by (simp add: mapLanguage_plain)
qed

theorem code_fence_consumes_verbatim_witness:
  "markdownToBlocks (''```'' @ [NL] @ ''a **b**'' @ [NL] @ ''# c'')
     = Some [Code [plainItem (''a **b**'' @ [NL] @ ''# c'')] ''plain text'']
   \<and> blocksLoop [''```JS'', ''x'', ''```'', ''y''] []
     = blocksLoop [''y''] [Code [plainItem ''x''] ''javascript'']"
proof -
  have f0: "startsWith ''```'' ''```''" and f1: "startsWith ''```'' ''```JS''"
    by (simp_all add: startsWith_def)
  have b0: "list_all (\<lambda>l. \<not> startsWith ''```'' l) [''a **b**'', ''# c'']"
    and b1: "list_all (\<lambda>l. \<not> startsWith ''```'' l) [''x'']"
    by (simp_all add: startsWith_def)
  have s: "split NL (''```'' @ [NL] @ ''a **b**'' @ [NL] @ ''# c'') = [''```'', ''a **b**'', ''# c'']"
    by (simp add: NL_def)
  have t0: "trim (drop 3 ''```'') = []" by (simp add: trim_def)
  have t1: "mapLanguage (if trim (drop 3 ''```JS'') = [] then ''plain text'' else trim (drop 3 ''```JS''))
      = ''javascript''" by code_simp
  have j: "join [NL] [''a **b**'', ''# c''] = ''a **b**'' @ [NL] @ ''# c''" by simp
  from code_fence_consumes_verbatim[OF f0 b0, of "[]" "[]" "[]"] t0 j
  have 1: "blocksLoop [''```'', ''a **b**'', ''# c''] []
      = Some [Code [plainItem (''a **b**'' @ [NL] @ ''# c'')] ''plain text'']"
    by (simp add: mapLanguage_plain)
  from code_fence_consumes_verbatim[OF f1 b1, of "''```''" "[''y'']" "[]"] f0 t1
  have 2: "blocksLoop [''```JS'', ''x'', ''```'', ''y''] []
     = blocksLoop [''y''] [Code [plainItem ''x''] ''javascript'']"
    by simp
  show ?thesis using 1 2 s by (simp add: markdownToBlocks_def)
qed

text \<open>
  C5. In a bullet list, the line of an item is followed by its nested bullets (the
  lines that start with two white-space code units or more and a bullet marker), each
  a child item, and then by its nested quote lines (white space and \<open>>\<close>), which make a
  single quote child after the nested bullets, their stripped contents joined by
  newlines. The children go to this item alone: the rest of the run is tokenized on
  its own. An item with neither has no children.
\<close>

theorem bullet_children_attach_to_preceding_item:
  assumes "isBulletLine l"
    and "list_all (test nestedBulletPrefix) nb"
    and "list_all (test nestedQuotePrefix) nq"
    and "case rest of [] \<Rightarrow> True
         | r # _ \<Rightarrow> \<not> test nestedQuotePrefix r \<and> (nq = [] \<longrightarrow> \<not> test nestedBulletPrefix r)"
  shows "bulletRun (l # nb @ nq @ rest) =
     (BulletedListItem (parseInlineFormatting (drop 2 l))
        (if nb = [] \<and> nq = [] then None
         else Some (map (\<lambda>s. BulletedListItem (parseInlineFormatting (strip nestedBulletPrefix s)) None) nb
                    @ (if nq = [] then []
                       else [Quote (parseInlineFormatting (join [NL] (map (strip nestedQuotePrefix) nq)))])))
      # fst (bulletRun rest), snd (bulletRun rest))
    \<and> blocksLoop (l # nb @ nq @ rest) blocks =
        blocksLoop (snd (bulletRun (l # nb @ nq @ rest))) (blocks @ fst (bulletRun (l # nb @ nq @ rest)))
    \<and> ((case rest of [] \<Rightarrow> True | r # _ \<Rightarrow> \<not> isBulletLine r) \<longrightarrow> bulletRun rest = ([], rest))"
proof (intro conjI impI)
  show "bulletRun (l # nb @ nq @ rest) =
     (BulletedListItem (parseInlineFormatting (drop 2 l))
        (if nb = [] \<and> nq = [] then None
         else Some (map (\<lambda>s. BulletedListItem (parseInlineFormatting (strip nestedBulletPrefix s)) None) nb
                    @ (if nq = [] then []
                       else [Quote (parseInlineFormatting (join [NL] (map (strip nestedQuotePrefix) nq)))])))
      # fst (bulletRun rest), snd (bulletRun rest))"
    by (rule bulletRun_item[OF assms])
next
  show "blocksLoop (l # nb @ nq @ rest) blocks =
        blocksLoop (snd (bulletRun (l # nb @ nq @ rest))) (blocks @ fst (bulletRun (l # nb @ nq @ rest)))"
    by (rule bullet_line[OF assms(1)])
next
  assume "case rest of [] \<Rightarrow> True | r # _ \<Rightarrow> \<not> isBulletLine r"
  then show "bulletRun rest = ([], rest)"
    by (cases rest) (simp_all add: bulletRun.simps)
qed

theorem bullet_children_attach_to_preceding_item_witness:
  "bulletRun [''- a'', ''  - b'', ''  > q1'', '' >q2'', ''* c'', ''x'']
     = ([BulletedListItem [plainItem ''a'']
           (Some [BulletedListItem [plainItem ''b''] None, Quote [plainItem (''q1'' @ [NL] @ ''q2'')]]),
         BulletedListItem [plainItem ''c''] None], [''x''])
   \<and> markdownToBlocks (''- [Page Title](https://example.com)'' @ [NL] @ ''  > quoted text'')
     = Some [BulletedListItem
              [\<lparr>content = ''Page Title'', link = Some ''https://example.com'',
                annotations = Some \<lparr>bold = False, italic = False, code = False,
                  strikethrough = False, underline = False\<rparr>\<rparr>]
              (Some [Quote [plainItem ''quoted text'']])]"
proof -
  have h1: "isBulletLine ''- a''" by code_simp
  have h2: "list_all (test nestedBulletPrefix) [''  - b'']" by code_simp
  have h3: "list_all (test nestedQuotePrefix) [''  > q1'', '' >q2'']" by code_simp
  have h4: "case [''* c'', ''x''] of [] \<Rightarrow> True
         | r # _ \<Rightarrow> \<not> test nestedQuotePrefix r
             \<and> ([''  > q1'', '' >q2''] = [] \<longrightarrow> \<not> test nestedBulletPrefix r)"
    by code_simp
  have r: "bulletRun [''* c'', ''x''] = ([BulletedListItem [plainItem ''c''] None], [''x''])"
    by code_simp
  have a: "parseInlineFormatting ''a'' = [plainItem ''a'']" by code_simp
  have b: "parseInlineFormatting (strip nestedBulletPrefix ''  - b'') = [plainItem ''b'']"
    by code_simp
  have s1: "strip nestedQuotePrefix ''  > q1'' = ''q1''" by code_simp
  have s2: "strip nestedQuotePrefix '' >q2'' = ''q2''" by code_simp
  have q: "parseInlineFormatting [CHR ''q'', CHR ''1'', NL, CHR ''q'', CHR ''2'']
      = [plainItem [CHR ''q'', CHR ''1'', NL, CHR ''q'', CHR ''2'']]"
    by code_simp
  from bullet_children_attach_to_preceding_item[OF h1 h2 h3 h4, of "[]"]
  have 1: "bulletRun [''- a'', ''  - b'', ''  > q1'', '' >q2'', ''* c'', ''x'']
     = ([BulletedListItem [plainItem ''a'']
           (Some [BulletedListItem [plainItem ''b''] None, Quote [plainItem (''q1'' @ [NL] @ ''q2'')]]),
         BulletedListItem [plainItem ''c''] None], [''x''])"
    by (simp add: r a b s1 s2 q)
  have 2: "markdownToBlocks (''- [Page Title](https://example.com)'' @ [NL] @ ''  > quoted text'')
     = Some [BulletedListItem
              [\<lparr>content = ''Page Title'', link = Some ''https://example.com'',
                annotations = Some \<lparr>bold = False, italic = False, code = False,
                  strikethrough = False, underline = False\<rparr>\<rparr>]
              (Some [Quote [plainItem ''quoted text'']])]"
    by code_simp
  show ?thesis using 1 2 by simp
qed

text \<open>
  C7. Bold around italic and italic around bold give the same Markdown, the content
  between three asterisks on each side, for every content.
\<close>

theorem emphasis_nesting_commutes:
  assumes "toLowerCase b = ''strong'' \<or> toLowerCase b = ''b''"
    and "toLowerCase i = ''em'' \<or> toLowerCase i = ''i''"
  shows "processElement p (Element b ab [Element i ai cs]) = ''***'' @ processNode (Element i ai cs) @ ''***''
    \<and> processElement p (Element i ai [Element b ab cs]) = ''***'' @ processNode (Element i ai cs) @ ''***''
    \<and> processNode (Element i ai [TextNode x]) = x
    \<and> (parseInto h1 = Returns (Element d [] [Element b ab [Element i ai [TextNode x]]]) \<and> h1 \<noteq> []
        \<longrightarrow> htmlToMarkdown parseInto (JSString h1) = Returns (''***'' @ x @ ''***''))
    \<and> (parseInto h2 = Returns (Element d [] [Element i ai [Element b ab [TextNode x]]]) \<and> h2 \<noteq> []
        \<longrightarrow> htmlToMarkdown parseInto (JSString h2) = Returns (''***'' @ x @ ''***''))"
proof -
  have nb: "toLowerCase b \<noteq> ''pre''" and ni: "toLowerCase i \<noteq> ''pre''"
    using assms by auto
  have bi: "\<And>q ds. processElement q (Element b ab [Element i ai ds])
      = ''***'' @ processNode (Element i ai ds) @ ''***''"
    using nb by (simp add: processElement_bold[OF assms(1)] processNode_single
        processElement_italic[OF assms(2)])
  have ib: "\<And>q ds. processElement q (Element i ai [Element b ab ds])
      = ''***'' @ processNode (Element i ai ds) @ ''***''"
    using ni processNode_parent_tag[OF nb ni]
    by (simp add: processElement_italic[OF assms(2)] processNode_single
        processElement_bold[OF assms(1)])
  have tr: "trim (''***'' @ x @ ''***'') = ''***'' @ x @ ''***''"
    using trim_fixed[of "CHR ''*''" "CHR ''*''" "''**'' @ x @ ''**''"] by (simp add: isSpace_def)
  have top1: "processNode (Element d [] [Element b ab [Element i ai [TextNode x]]]) = ''***'' @ x @ ''***''"
    by (simp only: processNode_single bi processNode_text)
  have top2: "processNode (Element d [] [Element i ai [Element b ab [TextNode x]]]) = ''***'' @ x @ ''***''"
    by (simp only: processNode_single ib processNode_text)
  show ?thesis
    using bi[of p cs] ib[of p cs] processNode_text[of i ai x] top1 top2 tr
    by (auto simp: htmlToMarkdown_def)
qed

theorem emphasis_nesting_commutes_witness:
  "htmlToMarkdown exampleBrowser (JSString ''<strong><em>x y</em></strong>'') = Returns ''***x y***''
   \<and> htmlToMarkdown exampleBrowser (JSString ''<em><strong>x y</strong></em>'') = Returns ''***x y***''"
proof -
  have b: "toLowerCase ''STRONG'' = ''strong'' \<or> toLowerCase ''STRONG'' = ''b''" by code_simp
  have i: "toLowerCase ''EM'' = ''em'' \<or> toLowerCase ''EM'' = ''i''" by code_simp
  have e1: "exampleBrowser ''<strong><em>x y</em></strong>''
      = Returns (Element ''DIV'' [] [Element ''STRONG'' [] [Element ''EM'' [] [TextNode ''x y'']]])"
    by (simp add: exampleBrowser_def)
  have e2: "exampleBrowser ''<em><strong>x y</strong></em>''
      = Returns (Element ''DIV'' [] [Element ''EM'' [] [Element ''STRONG'' [] [TextNode ''x y'']]])"
    by (simp add: exampleBrowser_def)
  show ?thesis
    using emphasis_nesting_commutes[OF b i, of _ "[]" "[]" _ "''x y''" exampleBrowser
        "''<strong><em>x y</em></strong>''" "''DIV''" "''<em><strong>x y</strong></em>''"] e1 e2
    by simp
qed

text \<open>
  C9. \<open>htmlToMarkdown\<close> returns the empty string for \<open>null\<close>, \<open>undefined\<close>, a value that
  is no string and the empty string. For any other string it returns what the
  normalizer gives, trimmed, or, where the browser throws, what \<open>stripHtml\<close> gives, which
  never throws. So it returns a string for every argument.
\<close>

theorem htmlToMarkdown_never_throws:
  "htmlToMarkdown parseInto JSNull = Returns []
   \<and> htmlToMarkdown parseInto JSUndefined = Returns []
   \<and> htmlToMarkdown parseInto JSOther = Returns []
   \<and> htmlToMarkdown parseInto (JSString []) = Returns []
   \<and> (s \<noteq> [] \<longrightarrow> htmlToMarkdown parseInto (JSString s) =
         (case parseInto s of
            Returns temp \<Rightarrow> Returns (trim (processNode temp))
          | Throws \<Rightarrow> stripHtml parseInto s))
   \<and> (\<exists>plain. stripHtml parseInto s = Returns plain)
   \<and> (\<exists>md. htmlToMarkdown parseInto html = Returns md)"
proof -
  have st: "\<And>u. \<exists>plain. stripHtml parseInto u = Returns plain"
    by (simp add: stripHtml_def split: outcome.splits)
  have "\<exists>md. htmlToMarkdown parseInto html = Returns md"
  proof (cases html)
    case (JSString u)
    then show ?thesis using st[of u] by (auto simp: htmlToMarkdown_def split: outcome.splits)
  qed (simp_all add: htmlToMarkdown_def)
  then show ?thesis using st[of s] by (simp add: htmlToMarkdown_def)
qed

theorem htmlToMarkdown_never_throws_witness:
  "htmlToMarkdown exampleBrowser (JSString ''<b>x</b>'') = Returns ''**x**''
   \<and> htmlToMarkdown exampleBrowser (JSString ''a <i>b</i>'') = Returns ''a b''"
proof -
  have n1: "''<b>x</b>'' \<noteq> []" and n2: "''a <i>b</i>'' \<noteq> []" by simp_all
  have e1: "exampleBrowser ''<b>x</b>'' = Returns (Element ''DIV'' [] [Element ''B'' [] [TextNode ''x'']])"
    by (simp add: exampleBrowser_def)
  have e2: "exampleBrowser ''a <i>b</i>'' = Throws"
    by (simp add: exampleBrowser_def)
  have p: "trim (processNode (Element ''DIV'' [] [Element ''B'' [] [TextNode ''x'']])) = ''**x**''"
    by code_simp
  have q: "stripTags ''a <i>b</i>'' = ''a b''" by code_simp
  have 1: "htmlToMarkdown exampleBrowser (JSString ''<b>x</b>'') = Returns ''**x**''"
    using htmlToMarkdown_never_throws[of exampleBrowser "''<b>x</b>''"] n1 e1 p by simp
  have 2: "htmlToMarkdown exampleBrowser (JSString ''a <i>b</i>'') = Returns ''a b''"
    using htmlToMarkdown_never_throws[of exampleBrowser "''a <i>b</i>''"] n2 e2 q
    by (simp add: stripHtml_def)
  show ?thesis using 1 2 by simp
qed

text \<open>
  C4. The Markdown of a table is made of the rows that have a cell at least, each with
  empty cells added up to the largest number of cells among them; rows with no \<open>td\<close> or
  \<open>th\<close> child count for nothing and are not emitted, and a table with no row left gives
  the empty string. The first row left is the header, followed by a separator row with
  \<open>---\<close> for each column. In every cell each \<open>|\<close> comes after a backslash.
\<close>

theorem table_rows_normalized:
  "processTable el = tableMarkdown (normalizedRows (tableCells el))
   \<and> list_all (\<lambda>row. length row = maxColumns (tableCells el)) (normalizedRows (tableCells el))
   \<and> (survivingRows (tableCells el) = [] \<longrightarrow> processTable el = [])
   \<and> (survivingRows (tableCells el) \<noteq> [] \<longrightarrow>
        maxColumns (tableCells el) \<in> length ` set (survivingRows (tableCells el)))
   \<and> (\<forall>row \<in> set (survivingRows (tableCells el)). length row \<le> maxColumns (tableCells el))
   \<and> list_all (list_all (pipesEscaped None)) (tableCells el)"
proof -
  have 1: "processTable el = tableMarkdown (normalizedRows (tableCells el))"
    by (simp add: processTable_cells buildTable_spec)
  have 3: "survivingRows (tableCells el) = [] \<longrightarrow> processTable el = []"
    unfolding 1 by (simp add: normalizedRows_def tableMarkdown_def)
  show ?thesis
    using 1 3 normalizedRows_length[of "tableCells el"] maxColumns_attained[of "tableCells el"]
      length_le_maxColumns[of _ "tableCells el"] tableCells_escaped[of el]
    by blast
qed

theorem table_rows_normalized_witness:
  "tableCells exampleTable = [[''A'' @ [BSLASH] @ ''|b'', ''B''], [], [''1'']]
   \<and> normalizedRows (tableCells exampleTable) = [[''A'' @ [BSLASH] @ ''|b'', ''B''], [''1'', []]]
   \<and> processTable exampleTable
       = ''| A'' @ [BSLASH] @ ''|b | B |'' @ [NL] @ ''| --- | --- |'' @ [NL] @ ''| 1 |  |'' @ [NL]
   \<and> processTable (Element ''TABLE'' [] [Element ''TR'' [] [TextNode ''x'']]) = []"
proof -
  have c: "tableCells exampleTable = [[''A'' @ [BSLASH] @ ''|b'', ''B''], [], [''1'']]"
    by code_simp
  have n: "normalizedRows (tableCells exampleTable) = [[''A'' @ [BSLASH] @ ''|b'', ''B''], [''1'', []]]"
    by code_simp
  have m: "tableMarkdown [[''A'' @ [BSLASH] @ ''|b'', ''B''], [''1'', []]]
       = ''| A'' @ [BSLASH] @ ''|b | B |'' @ [NL] @ ''| --- | --- |'' @ [NL] @ ''| 1 |  |'' @ [NL]"
    by code_simp
  have s: "survivingRows (tableCells (Element ''TABLE'' [] [Element ''TR'' [] [TextNode ''x'']])) = []"
    by code_simp
  have 1: "processTable exampleTable
       = ''| A'' @ [BSLASH] @ ''|b | B |'' @ [NL] @ ''| --- | --- |'' @ [NL] @ ''| 1 |  |'' @ [NL]"
    using table_rows_normalized[of exampleTable] n m by simp
  have "survivingRows (tableCells (Element ''TABLE'' [] [Element ''TR'' [] [TextNode ''x'']])) = []
      \<longrightarrow> processTable (Element ''TABLE'' [] [Element ''TR'' [] [TextNode ''x'']]) = []"
    using table_rows_normalized[of "Element ''TABLE'' [] [Element ''TR'' [] [TextNode ''x'']]"]
    by blast
  then have 2: "processTable (Element ''TABLE'' [] [Element ''TR'' [] [TextNode ''x'']]) = []"
    using s by simp
  show ?thesis using c n 1 2 by simp
qed

end
